theory Spec2Isabelle
  imports Main
begin

section \<open>Data model of \<open>src/command/monitor.py\<close>\<close>

text \<open>
  The monitoring result of one poll: the six module constants \<open>NOT_UPDATED\<close> ...
  \<open>SKIPPED\<close> (lines 19-24).
\<close>

datatype outcome = NOT_UPDATED | CACHED | EMPTY | FAILED | UPDATED | SKIPPED

text \<open>
  A \<open>datetime\<close> is a number of microseconds; \<open>timedelta(minutes=n)\<close> is
  \<open>minutes n\<close>.
\<close>

type_synonym time = int

definition minutes :: "int \<Rightarrow> int" where
  "minutes n = n * 60000000"

text \<open>
  A feed entry is a mapping from keys to text (\<open>entry.get('guid')\<close>); the keys the
  poller reads are \<open>guid\<close> and \<open>link\<close>.
\<close>

type_synonym entry = "(string \<times> string) list"

definition entry_get :: "entry \<Rightarrow> string \<Rightarrow> string option" where
  "entry_get e k = map_of e k"

text \<open>
  The fields of \<open>db.Feed\<close> that the module reads or writes. \<open>entry_hashes\<close> is a JSON
  text in the database: \<open>None\<close> stands for a null or empty text, \<open>Some hs\<close> for the text
  of the list \<open>hs\<close> (\<open>loads (dumps hs) = hs\<close>).
\<close>

record feed =
  feed_id :: int
  link :: string
  title :: string
  etag :: "string option"
  last_modified :: "time option"
  updated_at :: time
  interval :: "int option"
  error_count :: int
  next_check_time :: "time option"
  entry_hashes :: "string list option"

text \<open>An active subscription \<open>db.Sub\<close>, with the language of its user.\<close>

record sub =
  user_id :: int
  sub_title :: "string option"
  lang :: string

text \<open>The dictionary returned by \<open>feed_get\<close>.\<close>

record fetched =
  rss_d :: "entry list option"
  status :: int
  msg :: string
  url :: string
  headers :: "(string \<times> string) list"

text \<open>
  What \<open>__send\<close> delivers: a text, or a \<open>Post\<close> built by \<open>get_post_from_entry\<close>
  from an entry, the feed's title and the feed's link.
\<close>

datatype post = Post entry string string

datatype content = Text string | Rich post

text \<open>
  The exceptions of the delivery collaborator: the three that \<open>__send\<close> catches, and
  any other one.
\<close>

datatype exn = UserIsBlockedError | UserIdInvalidError | ChatWriteForbiddenError | OtherError

text \<open>
  The effects of the module on its collaborators, in the order they are issued.
\<close>

datatype level = Debug | Info | Warning | Error

datatype event =
    Fetch string "(string \<times> string) list"
  | Save feed
  | Deactivate_feed feed
  | Migrate feed string
  | Update_interval feed
  | Generate_message post
  | Send_message int content
  | Unsub_all int
  | Log level

text \<open>
  The collaborators outside the module, as functions: the clock, the fetcher, the
  database reads, the hash, the delivery (\<open>None\<close>: delivered, \<open>Some e\<close>: raised \<open>e\<close>).
  \<open>now\<close> is what \<open>datetime.now\<close> returns to a poll; \<open>default_interval\<close> is
  \<open>EffectiveOptions.default_interval\<close>; \<open>active_subs f\<close> is
  \<open>db.Sub.filter(feed=f, state=1)\<close>; \<open>migrate_to_new_url\<close> returns \<open>Some g\<close> when its
  result is a \<open>db.Feed\<close>; \<open>feed_deactivated_warn l\<close> is
  \<open>i18n[l]['feed_deactivated_warn']\<close>. A log record keeps its level only.
\<close>

record env =
  now :: time
  default_interval :: int
  get_hash :: "string \<Rightarrow> string"
  format_datetime :: "time \<Rightarrow> string"
  feed_get :: "string \<Rightarrow> (string \<times> string) list \<Rightarrow> fetched"
  get_http_caching_headers :: "(string \<times> string) list \<Rightarrow> string option \<times> time option"
  active_subs :: "feed \<Rightarrow> sub list"
  migrate_to_new_url :: "feed \<Rightarrow> string \<Rightarrow> feed option"
  deliver :: "int \<Rightarrow> content \<Rightarrow> exn option"
  escape_html :: "string \<Rightarrow> string"
  feed_deactivated_warn :: "string \<Rightarrow> string"
  get_tasks :: "int list"
  feeds_by_id :: "int list \<Rightarrow> feed list"

text \<open>
  \<open>__user_unsub_all_lock_bucket\<close> (line 27): a \<open>defaultdict\<close> from user ids to locks;
  \<open>Some True\<close> is a lock that is held.
\<close>

type_synonym bucket = "int \<Rightarrow> bool option"

section \<open>Python's truth values and slices\<close>

definition truthy :: "string option \<Rightarrow> bool" where
  "truthy v = (case v of None \<Rightarrow> False | Some s \<Rightarrow> s \<noteq> [])"

definition py_or :: "string option \<Rightarrow> string option \<Rightarrow> string option" where
  "py_or a b = (if truthy a then a else b)"

text \<open>\<open>xs[:k]\<close>: a negative \<open>k\<close> counts from the end.\<close>

definition slice_to :: "'a list \<Rightarrow> int \<Rightarrow> 'a list" where
  "slice_to xs k =
     (if 0 \<le> k then take (nat k) xs else take (length xs - nat (- k)) xs)"

section \<open>Running coroutines together\<close>

text \<open>
  \<open>asyncio.gather\<close> without \<open>return_exceptions\<close>: every coroutine is started and none
  is cancelled when another one raises; the awaiting caller gets the results in argument
  order, or an exception. The model runs the coroutines one after the other in argument
  order, threading the lock bucket, and propagates the first exception in that order.
\<close>

fun gather ::
  "('a \<Rightarrow> bucket \<Rightarrow> (exn + 'b) \<times> event list \<times> bucket) \<Rightarrow> 'a list \<Rightarrow> bucket
    \<Rightarrow> (exn + 'b list) \<times> event list \<times> bucket" where
  "gather f [] b = (Inr [], [], b)"
| "gather f (x # xs) b =
     (case f x b of (r, ev, b1) \<Rightarrow>
        (case gather f xs b1 of (rs, evs, b2) \<Rightarrow>
           ((case r of
               Inl e \<Rightarrow> Inl e
             | Inr v \<Rightarrow> (case rs of Inl e \<Rightarrow> Inl e | Inr vs \<Rightarrow> Inr (v # vs))),
            ev @ evs, b2)))"

section \<open>Delivery: \<open>__send\<close> (lines 204-219)\<close>

definition send :: "env \<Rightarrow> sub \<Rightarrow> content \<Rightarrow> bucket \<Rightarrow> (exn + unit) \<times> event list \<times> bucket" where
  "send ev s p b =
     (let uid = user_id s in
      case deliver ev uid p of
        None \<Rightarrow> (Inr (), [Send_message uid p], b)
      | Some e \<Rightarrow>
          if e = UserIsBlockedError \<or> e = UserIdInvalidError \<or> e = ChatWriteForbiddenError
          then
            (let b1 = (case b uid of None \<Rightarrow> b(uid \<mapsto> False) | Some l \<Rightarrow> b) in
             if b1 uid = Some True
             then (Inr (), [Send_message uid p], b1)
             else (let b2 = b1(uid \<mapsto> True);
                       b3 = b2(uid \<mapsto> False)
                   in (Inr (), [Send_message uid p, Log Error, Unsub_all uid], b3)))
          else (Inl e, [Send_message uid p], b))"

section \<open>Fanout: \<open>__notify_all\<close> (lines 193-201)\<close>

definition notify_all :: "env \<Rightarrow> feed \<Rightarrow> entry \<Rightarrow> bucket \<Rightarrow> (exn + unit) \<times> event list \<times> bucket" where
  "notify_all ev f e b =
     (let subs = active_subs ev f;
          ev1 = (if subs = [] then [Update_interval f] else []);
          p = Post e (title f) (link f)
      in case gather (\<lambda>s. send ev s (Rich p)) subs b of
           (r, evs, b1) \<Rightarrow>
             ((case r of Inl x \<Rightarrow> Inl x | Inr vs \<Rightarrow> Inr ()),
              ev1 @ [Generate_message p] @ evs, b1))"

section \<open>Deactivation: \<open>__deactivate_feed_and_notify_all\<close> (lines 222-239)\<close>

definition deactivation_notice :: "env \<Rightarrow> feed \<Rightarrow> sub \<Rightarrow> string" where
  "deactivation_notice ev f s =
     ''<a href='' @ [CHR 0x22] @ link f @ [CHR 0x22] @ ''>''
       @ escape_html ev (if truthy (sub_title s) then the (sub_title s) else title f)
       @ ''</a>'' @ [CHR 0x0A]
       @ feed_deactivated_warn ev (lang s)"

definition deactivate_feed_and_notify_all ::
  "env \<Rightarrow> feed \<Rightarrow> bucket \<Rightarrow> (exn + unit) \<times> event list \<times> bucket" where
  "deactivate_feed_and_notify_all ev f b =
     (let subs = active_subs ev f in
      if subs = [] then (Inr (), [Deactivate_feed f], b)
      else
        (case gather (\<lambda>s. send ev s (Text (deactivation_notice ev f s))) subs b of
           (r, evs, b1) \<Rightarrow>
             ((case r of Inl x \<Rightarrow> Inl x | Inr vs \<Rightarrow> Inr ()),
              Deactivate_feed f # evs, b1)))"

section \<open>The poll of one feed: \<open>__monitor\<close> (lines 106-190)\<close>

text \<open>The request headers (lines 117-121).\<close>

definition request_headers :: "env \<Rightarrow> feed \<Rightarrow> (string \<times> string) list" where
  "request_headers ev f =
     [(''If-Modified-Since'',
       format_datetime ev (case last_modified f of Some t \<Rightarrow> t | None \<Rightarrow> updated_at f))]
     @ (if truthy (etag f) then [(''If-None-Match'', the (etag f))] else [])"

text \<open>The delay of line 145.\<close>

definition next_check_interval :: "int \<Rightarrow> int \<Rightarrow> int" where
  "next_check_interval ival errs = min ival 15 * min (errs div 10 + 1) 5"

text \<open>The error branch (lines 135-149).\<close>

definition monitor_error :: "env \<Rightarrow> feed \<Rightarrow> bucket \<Rightarrow> (exn + outcome) \<times> event list \<times> bucket" where
  "monitor_error ev f b =
     (if 100 \<le> error_count f then
        (case deactivate_feed_and_notify_all ev f b of
           (r, evs, b1) \<Rightarrow>
             ((case r of Inl x \<Rightarrow> Inl x | Inr u \<Rightarrow> Inr FAILED), Log Error # evs, b1))
      else
        (let f1 = f\<lparr>error_count := error_count f + 1\<rparr>;
             ev1 = (if error_count f1 mod 10 = 0 then [Log Warning] else []);
             f2 = (if 10 \<le> error_count f1 then
                     (let ival = (case interval f1 of
                                    None \<Rightarrow> default_interval ev
                                  | Some i \<Rightarrow> if i \<noteq> 0 then i else default_interval ev);
                          nci = next_check_interval ival (error_count f1)
                      in if ival < nci
                         then f1\<lparr>next_check_time := Some (now ev + minutes nci)\<rparr>
                         else f1)
                   else f1)
         in (Inr FAILED, ev1 @ [Save f2], b)))"

text \<open>\<open>old_hashes\<close> (line 158).\<close>

definition stored_hashes :: "feed \<Rightarrow> string list" where
  "stored_hashes f = (case entry_hashes f of None \<Rightarrow> [] | Some hs \<Rightarrow> hs)"

text \<open>
  The loop of lines 161-169, with its two accumulators \<open>updated_hashes\<close> and
  \<open>updated_entries\<close>.
\<close>

fun scan_entries ::
  "(string \<Rightarrow> string) \<Rightarrow> string list \<Rightarrow> entry list \<Rightarrow> string list \<Rightarrow> entry list
    \<Rightarrow> string list \<times> entry list" where
  "scan_entries gh old_hashes [] uh ue = (uh, ue)"
| "scan_entries gh old_hashes (e # es) uh ue =
     (let guid = py_or (entry_get e ''guid'') (entry_get e ''link'') in
      if \<not> truthy guid then scan_entries gh old_hashes es uh ue
      else
        (let h = gh (the guid) in
         if h \<in> set old_hashes then scan_entries gh old_hashes es uh ue
         else scan_entries gh old_hashes es (uh @ [h]) (ue @ [e])))"

text \<open>The new list of hashes (lines 176-177), for \<open>n\<close> fetched entries.\<close>

definition merge_hashes :: "string list \<Rightarrow> string list \<Rightarrow> nat \<Rightarrow> string list" where
  "merge_hashes updated_hashes old_hashes n =
     (let len = max (int n * 2) 100
      in updated_hashes @ slice_to old_hashes (len - int (length updated_hashes)))"

text \<open>The branch of a fetch with entries (lines 157-190).\<close>

definition monitor_entries ::
  "env \<Rightarrow> fetched \<Rightarrow> entry list \<Rightarrow> feed \<Rightarrow> bucket \<Rightarrow> (exn + outcome) \<times> event list \<times> bucket" where
  "monitor_entries ev d entries f b =
     (let old_hashes = stored_hashes f in
      case scan_entries (get_hash ev) old_hashes entries [] [] of
        (updated_hashes, updated_entries) \<Rightarrow>
          if updated_hashes = [] then (Inr NOT_UPDATED, [Log Debug], b)
          else
            (let new_hashes = merge_hashes updated_hashes old_hashes (length entries);
                 f1 = f\<lparr>entry_hashes := Some new_hashes,
                        etag := fst (get_http_caching_headers ev (headers d)),
                        last_modified := snd (get_http_caching_headers ev (headers d))\<rparr>;
                 moved = (url d \<noteq> link f1);
                 f2 = (if moved
                       then (case migrate_to_new_url ev f1 (url d) of
                               Some g \<Rightarrow> g
                             | None \<Rightarrow> f1)
                       else f1);
                 ev1 = (if moved then [Migrate f1 (url d)] else [])
             in case gather (notify_all ev f2) updated_entries b of
                  (r, evs, b1) \<Rightarrow>
                    ((case r of Inl x \<Rightarrow> Inl x | Inr vs \<Rightarrow> Inr UPDATED),
                     [Log Debug, Save f1] @ ev1 @ evs, b1)))"

definition skip_due :: "env \<Rightarrow> feed \<Rightarrow> bool" where
  "skip_due ev f = (case next_check_time f of None \<Rightarrow> False | Some t \<Rightarrow> now ev < t)"

definition monitor :: "env \<Rightarrow> feed \<Rightarrow> bucket \<Rightarrow> (exn + outcome) \<times> event list \<times> bucket" where
  "monitor ev f b =
     (if skip_due ev f then (Inr SKIPPED, [], b)
      else
        (let hs = request_headers ev f;
             d = feed_get ev (link f) hs;
             recovered = ((rss_d d \<noteq> None \<or> status d = 304)
                          \<and> (0 < error_count f \<or> next_check_time f \<noteq> None));
             f1 = (if recovered then f\<lparr>error_count := 0, next_check_time := None\<rparr> else f);
             ev1 = Fetch (link f) hs # (if recovered then [Save f1] else [])
         in if status d = 304 then (Inr CACHED, ev1 @ [Log Debug], b)
            else
              (case rss_d d of
                 None \<Rightarrow>
                   (case monitor_error ev f1 b of (r, evs, b1) \<Rightarrow> (r, ev1 @ evs, b1))
               | Some entries \<Rightarrow>
                   if entries = [] then
                     (Inr EMPTY,
                      ev1 @ (if url d \<noteq> link f1 then [Migrate f1 (url d)] else [])
                          @ [Log Debug], b)
                   else
                     (case monitor_entries ev d entries f1 b of
                        (r, evs, b1) \<Rightarrow> (r, ev1 @ evs, b1)))))"

section \<open>The cycle: \<open>MonitoringLogs\<close> and \<open>run_monitor_task\<close> (lines 30-103)\<close>

record monitoring_logs =
  monitoring_counts :: int
  not_updated :: int
  cached :: int
  empty_count :: int
  failed :: int
  updated :: int
  skipped :: int

definition print_summary :: "monitoring_logs \<Rightarrow> monitoring_logs \<times> event list" where
  "print_summary m =
     (m\<lparr>not_updated := 0, cached := 0, empty_count := 0, failed := 0, updated := 0,
        skipped := 0, monitoring_counts := 0\<rparr>, [Log Info])"

definition log_counts :: "monitoring_logs \<Rightarrow> monitoring_logs \<Rightarrow> monitoring_logs \<times> event list" where
  "log_counts m t =
     (let m1 = m\<lparr>not_updated := not_updated m + not_updated t,
                  cached := cached m + cached t,
                  empty_count := empty_count m + empty_count t,
                  failed := failed m + failed t,
                  updated := updated m + updated t,
                  skipped := skipped m + skipped t\<rparr>;
          m2 = m1\<lparr>monitoring_counts := monitoring_counts m1 + 1\<rparr>
      in if monitoring_counts m2 = 10
         then (case print_summary m2 of (m3, evs) \<Rightarrow> (m3, Log Debug # evs))
         else (m2, [Log Debug]))"

text \<open>The tally of lines 80-101; \<open>monitoring_counts\<close> is not used by it.\<close>

fun tally :: "outcome list \<Rightarrow> monitoring_logs \<Rightarrow> monitoring_logs" where
  "tally [] t = t"
| "tally (r # rs) t =
     tally rs
       (case r of
          NOT_UPDATED \<Rightarrow> t\<lparr>not_updated := not_updated t + 1\<rparr>
        | CACHED \<Rightarrow> t\<lparr>not_updated := not_updated t + 1, cached := cached t + 1\<rparr>
        | EMPTY \<Rightarrow> t\<lparr>not_updated := not_updated t + 1, empty_count := empty_count t + 1\<rparr>
        | UPDATED \<Rightarrow> t\<lparr>updated := updated t + 1\<rparr>
        | FAILED \<Rightarrow> t\<lparr>failed := failed t + 1\<rparr>
        | SKIPPED \<Rightarrow> t\<lparr>skipped := skipped t + 1\<rparr>)"

definition zero_counts :: monitoring_logs where
  "zero_counts =
     \<lparr>monitoring_counts = 0, not_updated = 0, cached = 0, empty_count = 0, failed = 0,
      updated = 0, skipped = 0\<rparr>"

definition run_monitor_task ::
  "env \<Rightarrow> monitoring_logs \<Rightarrow> bucket \<Rightarrow> (exn + unit) \<times> event list \<times> monitoring_logs \<times> bucket" where
  "run_monitor_task ev m b =
     (let feed_id_to_monitor = get_tasks ev in
      if feed_id_to_monitor = [] then (Inr (), [], m, b)
      else
        (let feeds = feeds_by_id ev feed_id_to_monitor in
         case gather (monitor ev) feeds b of
           (r, evs, b1) \<Rightarrow>
             (case r of
                Inl x \<Rightarrow> (Inl x, Log Debug # evs, m, b1)
              | Inr result \<Rightarrow>
                  (case log_counts m (tally result zero_counts) of
                     (m1, evs1) \<Rightarrow> (Inr (), Log Debug # evs @ evs1, m1, b1)))))"

section \<open>Projections of a list of effects\<close>

fun saves :: "event list \<Rightarrow> feed list" where
  "saves [] = []"
| "saves (Save f # es) = f # saves es"
| "saves (e # es) = saves es"

fun sends :: "event list \<Rightarrow> (int \<times> content) list" where
  "sends [] = []"
| "sends (Send_message u c # es) = (u, c) # sends es"
| "sends (e # es) = sends es"

fun rendered :: "event list \<Rightarrow> post list" where
  "rendered [] = []"
| "rendered (Generate_message p # es) = p # rendered es"
| "rendered (e # es) = rendered es"

fun deactivations :: "event list \<Rightarrow> feed list" where
  "deactivations [] = []"
| "deactivations (Deactivate_feed f # es) = f # deactivations es"
| "deactivations (e # es) = deactivations es"

section \<open>Notions used in the statements\<close>

text \<open>
  The hash of an entry as the loop derives it, newness against a stored list, the
  effects of a call, and the parts of a poll that the statements name: the fetch result
  of a feed, the recovery of its error state, the feed as the update saves it.
  \<open>uncaught\<close> says that one of the sends among some effects raised an exception that
  \<open>__send\<close> does not catch.
\<close>

definition fingerprint :: "(string \<Rightarrow> string) \<Rightarrow> entry \<Rightarrow> string option" where
  "fingerprint gh e =
     (let guid = py_or (entry_get e ''guid'') (entry_get e ''link'') in
      if truthy guid then Some (gh (the guid)) else None)"

definition is_new :: "(string \<Rightarrow> string) \<Rightarrow> string list \<Rightarrow> entry \<Rightarrow> bool" where
  "is_new gh old e = (case fingerprint gh e of None \<Rightarrow> False | Some h \<Rightarrow> h \<notin> set old)"

definition events :: "'r \<times> event list \<times> 'b \<Rightarrow> event list" where
  "events t = fst (snd t)"

definition post_entry :: "post \<Rightarrow> entry" where
  "post_entry p = (case p of Post e t l \<Rightarrow> e)"

definition uncaught :: "env \<Rightarrow> event list \<Rightarrow> bool" where
  "uncaught ev evs = (\<exists>uc \<in> set (sends evs). deliver ev (fst uc) (snd uc) = Some OtherError)"

definition bad_send :: "env \<Rightarrow> int \<times> content \<Rightarrow> bool" where
  "bad_send ev uc = (deliver ev (fst uc) (snd uc) = Some OtherError)"

definition backoff :: "env \<Rightarrow> feed \<Rightarrow> feed" where
  "backoff ev f =
     (let f1 = f\<lparr>error_count := error_count f + 1\<rparr> in
      if 10 \<le> error_count f1 then
        (let ival = (case interval f1 of
                       None \<Rightarrow> default_interval ev
                     | Some i \<Rightarrow> if i \<noteq> 0 then i else default_interval ev);
             nci = next_check_interval ival (error_count f1)
         in if ival < nci then f1\<lparr>next_check_time := Some (now ev + minutes nci)\<rparr> else f1)
      else f1)"

definition new_entries :: "env \<Rightarrow> feed \<Rightarrow> entry list \<Rightarrow> entry list" where
  "new_entries ev f entries = filter (is_new (get_hash ev) (stored_hashes f)) entries"

definition new_hashes :: "env \<Rightarrow> feed \<Rightarrow> entry list \<Rightarrow> string list" where
  "new_hashes ev f entries = map (\<lambda>e. the (fingerprint (get_hash ev) e)) (new_entries ev f entries)"

definition updated_feed :: "env \<Rightarrow> fetched \<Rightarrow> entry list \<Rightarrow> feed \<Rightarrow> feed" where
  "updated_feed ev d entries f =
     f\<lparr>entry_hashes := Some (merge_hashes (new_hashes ev f entries) (stored_hashes f) (length entries)),
       etag := fst (get_http_caching_headers ev (headers d)),
       last_modified := snd (get_http_caching_headers ev (headers d))\<rparr>"

definition notified_feed :: "env \<Rightarrow> fetched \<Rightarrow> feed \<Rightarrow> feed" where
  "notified_feed ev d f1 =
     (if url d \<noteq> link f1
      then (case migrate_to_new_url ev f1 (url d) of Some g \<Rightarrow> g | None \<Rightarrow> f1)
      else f1)"

definition fetched_for :: "env \<Rightarrow> feed \<Rightarrow> fetched" where
  "fetched_for ev f = feed_get ev (link f) (request_headers ev f)"

definition cleared :: "feed \<Rightarrow> feed" where
  "cleared f = f\<lparr>error_count := 0, next_check_time := None\<rparr>"

definition recovers :: "env \<Rightarrow> feed \<Rightarrow> bool" where
  "recovers ev f =
     ((rss_d (fetched_for ev f) \<noteq> None \<or> status (fetched_for ev f) = 304)
      \<and> (0 < error_count f \<or> next_check_time f \<noteq> None))"

definition recovered :: "env \<Rightarrow> feed \<Rightarrow> feed" where
  "recovered ev f = (if recovers ev f then cleared f else f)"

definition prologue :: "env \<Rightarrow> feed \<Rightarrow> event list" where
  "prologue ev f =
     Fetch (link f) (request_headers ev f) # (if recovers ev f then [Save (cleared f)] else [])"

section \<open>Concrete inputs\<close>

text \<open>
  A feed, two subscriptions, three fetch results and an environment that answers every
  fetch with the same result, every subscription query with the same list and every
  delivery in the same way; its hash is the identity.
\<close>

definition no_locks :: bucket where
  "no_locks = (\<lambda>u. None)"

definition feed0 :: feed where
  "feed0 =
     \<lparr>feed_id = 1, link = ''u'', title = ''t'', etag = None, last_modified = None,
      updated_at = 0, interval = Some 5, error_count = 0, next_check_time = None,
      entry_hashes = None\<rparr>"

definition sub1 :: sub where
  "sub1 = \<lparr>user_id = 7, sub_title = None, lang = ''en''\<rparr>"

definition sub2 :: sub where
  "sub2 = \<lparr>user_id = 8, sub_title = Some ''mine'', lang = ''en''\<rparr>"

definition fetch_ok :: "entry list \<Rightarrow> fetched" where
  "fetch_ok es = \<lparr>rss_d = Some es, status = 200, msg = [], url = ''u'', headers = []\<rparr>"

definition fetch_failed :: fetched where
  "fetch_failed = \<lparr>rss_d = None, status = - 1, msg = ''timeout'', url = ''u'', headers = []\<rparr>"

definition fetch_cached :: fetched where
  "fetch_cached = \<lparr>rss_d = None, status = 304, msg = [], url = ''u'', headers = []\<rparr>"

definition test_env :: "fetched \<Rightarrow> sub list \<Rightarrow> exn option \<Rightarrow> env" where
  "test_env d subs x =
     \<lparr>now = 1000, default_interval = 10, get_hash = (\<lambda>s. s), format_datetime = (\<lambda>t. []),
      feed_get = (\<lambda>l h. d), get_http_caching_headers = (\<lambda>h. (None, None)),
      active_subs = (\<lambda>f. subs), migrate_to_new_url = (\<lambda>f u. None),
      deliver = (\<lambda>u c. x), escape_html = (\<lambda>s. s),
      feed_deactivated_warn = (\<lambda>l. ''off''), get_tasks = [1],
      feeds_by_id = (\<lambda>ids. [feed0])\<rparr>"

definition entry_a :: entry where "entry_a = [(''guid'', ''a'')]"
definition entry_b :: entry where "entry_b = [(''guid'', ''b'')]"
definition entry_c :: entry where "entry_c = [(''link'', ''c'')]"
definition entry_a2 :: entry where "entry_a2 = [(''guid'', ''a''), (''title'', ''x'')]"

section \<open>Facts about the functions\<close>

lemma scan_entries_eq:
  "scan_entries gh old es uh ue =
     (uh @ map (\<lambda>e. the (fingerprint gh e)) (filter (is_new gh old) es),
      ue @ filter (is_new gh old) es)"
  by (induction es arbitrary: uh ue) (simp_all add: Let_def fingerprint_def is_new_def)

lemma saves_append [simp]: "saves (xs @ ys) = saves xs @ saves ys"
  by (induction xs rule: saves.induct) simp_all

lemma sends_append [simp]: "sends (xs @ ys) = sends xs @ sends ys"
  by (induction xs rule: sends.induct) simp_all

lemma rendered_append [simp]: "rendered (xs @ ys) = rendered xs @ rendered ys"
  by (induction xs rule: rendered.induct) simp_all

lemma deactivations_append [simp]: "deactivations (xs @ ys) = deactivations xs @ deactivations ys"
  by (induction xs rule: deactivations.induct) simp_all

lemma send_events:
  "saves (events (send ev s p b)) = []"
  "sends (events (send ev s p b)) = [(user_id s, p)]"
  "rendered (events (send ev s p b)) = []"
  "deactivations (events (send ev s p b)) = []"
  by (simp_all add: send_def events_def Let_def split: option.splits)

lemma send_result:
  "fst (send ev s p b) =
     (case deliver ev (user_id s) p of
        None \<Rightarrow> Inr ()
      | Some e \<Rightarrow> if e = OtherError then Inl e else Inr ())"
  by (cases "deliver ev (user_id s) p"; cases "the (deliver ev (user_id s) p)")
     (simp_all add: send_def Let_def split: option.splits)

lemma gather_events_map:
  assumes f: "\<And>x b. pr (events (f x b)) = g x"
    and app: "\<And>xs ys. pr (xs @ ys) = pr xs @ pr ys" and nil: "pr [] = []"
  shows "pr (events (gather f xs b)) = concat (map g xs)"
proof (induction xs arbitrary: b)
  case Nil
  then show ?case by (simp add: events_def nil)
next
  case (Cons x xs)
  obtain r ev1 b1 where fx: "f x b = (r, ev1, b1)" by (cases "f x b") auto
  obtain rs evs b2 where gx: "gather f xs b1 = (rs, evs, b2)" by (cases "gather f xs b1") auto
  have 1: "pr ev1 = g x" using f[of x b] fx by (simp add: events_def)
  have 2: "pr evs = concat (map g xs)" using Cons.IH[of b1] gx by (simp add: events_def)
  show ?case using 1 2 fx gx by (simp add: events_def app)
qed

lemma gather_fails_iff:
  assumes "\<And>x b. (\<exists>e. fst (f x b) = Inl e) = bad x"
  shows "(\<exists>e. fst (gather f xs b) = Inl e) = (\<exists>x \<in> set xs. bad x)"
  using assms
proof (induction xs arbitrary: b)
  case Nil
  then show ?case by simp
next
  case (Cons x xs)
  obtain r ev1 b1 where fx: "f x b = (r, ev1, b1)" by (cases "f x b") auto
  obtain rs evs b2 where gx: "gather f xs b1 = (rs, evs, b2)" by (cases "gather f xs b1") auto
  have 1: "(\<exists>e. r = Inl e) = bad x" using Cons.prems[of x b] fx by simp
  have 2: "(\<exists>e. rs = Inl e) = (\<exists>x \<in> set xs. bad x)" using Cons.IH[of b1] Cons.prems gx by simp
  show ?case using 1 2 fx gx by (cases r; cases rs) auto
qed

lemma send_raises: "(\<exists>e. fst (send ev s p b) = Inl e) = (deliver ev (user_id s) p = Some OtherError)"
  by (simp add: send_result split: option.splits)

lemma gather_send_sends:
  "sends (events (gather (\<lambda>s. send ev s (c s)) subs b)) = map (\<lambda>s. (user_id s, c s)) subs"
proof -
  have "sends (events (gather (\<lambda>s. send ev s (c s)) subs b))
          = concat (map (\<lambda>s. [(user_id s, c s)]) subs)"
    by (rule gather_events_map) (simp_all add: send_events)
  then show ?thesis by (simp add: concat_map_singleton)
qed

lemma gather_send_saves: "saves (events (gather (\<lambda>s. send ev s (c s)) subs b)) = []"
proof -
  have "saves (events (gather (\<lambda>s. send ev s (c s)) subs b)) = concat (map (\<lambda>s. []) subs)"
    by (rule gather_events_map) (simp_all add: send_events)
  then show ?thesis by simp
qed

lemma gather_send_rendered: "rendered (events (gather (\<lambda>s. send ev s (c s)) subs b)) = []"
proof -
  have "rendered (events (gather (\<lambda>s. send ev s (c s)) subs b)) = concat (map (\<lambda>s. []) subs)"
    by (rule gather_events_map) (simp_all add: send_events)
  then show ?thesis by simp
qed

lemma gather_send_deactivations:
  "deactivations (events (gather (\<lambda>s. send ev s (c s)) subs b)) = []"
proof -
  have "deactivations (events (gather (\<lambda>s. send ev s (c s)) subs b))
          = concat (map (\<lambda>s. []) subs)"
    by (rule gather_events_map) (simp_all add: send_events)
  then show ?thesis by simp
qed

lemma gather_send_raises:
  "(\<exists>e. fst (gather (\<lambda>s. send ev s (c s)) subs b) = Inl e)
     = (\<exists>s \<in> set subs. deliver ev (user_id s) (c s) = Some OtherError)"
  by (rule gather_fails_iff) (simp add: send_raises)

lemma events_case [simp]:
  "events (case t of (r, evs, b) \<Rightarrow> (g r, h evs, k b)) = h (events t)"
  by (cases t) (simp add: events_def)

lemma fst_case [simp]:
  "fst (case t of (r, evs, b) \<Rightarrow> (g r, h evs, k b)) = g (fst t)"
  by (cases t) simp

lemma notify_all_events:
  "sends (events (notify_all ev f e b))
     = map (\<lambda>s. (user_id s, Rich (Post e (title f) (link f)))) (active_subs ev f)"
  "saves (events (notify_all ev f e b)) = []"
  "rendered (events (notify_all ev f e b)) = [Post e (title f) (link f)]"
  "deactivations (events (notify_all ev f e b)) = []"
  by (simp_all add: notify_all_def Let_def gather_send_sends gather_send_saves
      gather_send_rendered gather_send_deactivations)

lemma uncaught_alt: "uncaught ev evs = (\<exists>uc \<in> set (sends evs). bad_send ev uc)"
  by (simp add: uncaught_def bad_send_def)

lemma notify_all_raises:
  "(\<exists>x. fst (notify_all ev f e b) = Inl x) = uncaught ev (events (notify_all ev f e b))"
proof -
  have "(\<exists>x. fst (notify_all ev f e b) = Inl x)
          = (\<exists>x. fst (gather (\<lambda>s. send ev s (Rich (Post e (title f) (link f))))
                      (active_subs ev f) b) = Inl x)"
    by (simp add: notify_all_def Let_def split: sum.splits)
  then show ?thesis
    by (simp add: gather_send_raises uncaught_alt notify_all_events bad_send_def)
qed

lemma deactivate_events:
  "sends (events (deactivate_feed_and_notify_all ev f b))
     = map (\<lambda>s. (user_id s, Text (deactivation_notice ev f s))) (active_subs ev f)"
  "saves (events (deactivate_feed_and_notify_all ev f b)) = []"
  "rendered (events (deactivate_feed_and_notify_all ev f b)) = []"
  "deactivations (events (deactivate_feed_and_notify_all ev f b)) = [f]"
  by (simp_all add: deactivate_feed_and_notify_all_def Let_def gather_send_sends
      gather_send_saves gather_send_rendered gather_send_deactivations events_def[of "(a, b, c)" for a b c])

lemma deactivate_raises:
  "(\<exists>x. fst (deactivate_feed_and_notify_all ev f b) = Inl x)
     = uncaught ev (events (deactivate_feed_and_notify_all ev f b))"
proof (cases "active_subs ev f = []")
  case True
  then show ?thesis
    by (simp add: uncaught_alt deactivate_events)
       (simp add: deactivate_feed_and_notify_all_def)
next
  case False
  then have "(\<exists>x. fst (deactivate_feed_and_notify_all ev f b) = Inl x)
          = (\<exists>x. fst (gather (\<lambda>s. send ev s (Text (deactivation_notice ev f s)))
                      (active_subs ev f) b) = Inl x)"
    by (simp add: deactivate_feed_and_notify_all_def Let_def split: sum.splits)
  then show ?thesis
    by (simp add: gather_send_raises uncaught_alt deactivate_events bad_send_def)
qed

lemma gather_notify_events:
  "sends (events (gather (notify_all ev f) es b))
     = concat (map (\<lambda>e. map (\<lambda>s. (user_id s, Rich (Post e (title f) (link f))))
                         (active_subs ev f)) es)"
  "saves (events (gather (notify_all ev f) es b)) = []"
  "rendered (events (gather (notify_all ev f) es b)) = map (\<lambda>e. Post e (title f) (link f)) es"
  "deactivations (events (gather (notify_all ev f) es b)) = []"
proof -
  show "sends (events (gather (notify_all ev f) es b))
     = concat (map (\<lambda>e. map (\<lambda>s. (user_id s, Rich (Post e (title f) (link f))))
                         (active_subs ev f)) es)"
    by (rule gather_events_map) (simp_all add: notify_all_events)
  have "saves (events (gather (notify_all ev f) es b)) = concat (map (\<lambda>e. []) es)"
    by (rule gather_events_map) (simp_all add: notify_all_events)
  then show "saves (events (gather (notify_all ev f) es b)) = []" by simp
  have "rendered (events (gather (notify_all ev f) es b))
          = concat (map (\<lambda>e. [Post e (title f) (link f)]) es)"
    by (rule gather_events_map) (simp_all add: notify_all_events)
  then show "rendered (events (gather (notify_all ev f) es b))
               = map (\<lambda>e. Post e (title f) (link f)) es"
    by (simp add: concat_map_singleton)
  have "deactivations (events (gather (notify_all ev f) es b)) = concat (map (\<lambda>e. []) es)"
    by (rule gather_events_map) (simp_all add: notify_all_events)
  then show "deactivations (events (gather (notify_all ev f) es b)) = []" by simp
qed

lemma gather_notify_raises:
  "(\<exists>x. fst (gather (notify_all ev f) es b) = Inl x)
     = uncaught ev (events (gather (notify_all ev f) es b))"
proof -
  have "(\<exists>x. fst (gather (notify_all ev f) es b) = Inl x)
          = (\<exists>e \<in> set es. \<exists>uc \<in> set (map (\<lambda>s. (user_id s, Rich (Post e (title f) (link f))))
                                         (active_subs ev f)). bad_send ev uc)"
    by (rule gather_fails_iff) (simp add: notify_all_raises uncaught_alt notify_all_events)
  then show ?thesis
    by (auto simp: uncaught_alt gather_notify_events)
qed

lemma events_triple [simp]: "events (r, evs, b) = evs"
  by (simp add: events_def)

lemma uncaught_simps [simp]:
  "uncaught ev [] = False"
  "uncaught ev (xs @ ys) = (uncaught ev xs \<or> uncaught ev ys)"
  "uncaught ev (Fetch l h # xs) = uncaught ev xs"
  "uncaught ev (Save f # xs) = uncaught ev xs"
  "uncaught ev (Deactivate_feed f # xs) = uncaught ev xs"
  "uncaught ev (Migrate f u # xs) = uncaught ev xs"
  "uncaught ev (Update_interval f # xs) = uncaught ev xs"
  "uncaught ev (Generate_message p # xs) = uncaught ev xs"
  "uncaught ev (Unsub_all i # xs) = uncaught ev xs"
  "uncaught ev (Log lv # xs) = uncaught ev xs"
  by (auto simp: uncaught_def)

lemma monitor_error_deactivate:
  "100 \<le> error_count f \<Longrightarrow>
   events (monitor_error ev f b) = Log Error # events (deactivate_feed_and_notify_all ev f b)"
  "100 \<le> error_count f \<Longrightarrow>
   fst (monitor_error ev f b)
     = (case fst (deactivate_feed_and_notify_all ev f b) of Inl x \<Rightarrow> Inl x | Inr u \<Rightarrow> Inr FAILED)"
  by (simp_all add: monitor_error_def)

lemma monitor_error_backoff:
  "\<not> 100 \<le> error_count f \<Longrightarrow>
   monitor_error ev f b
     = (Inr FAILED,
        (if (error_count f + 1) mod 10 = 0 then [Log Warning] else []) @ [Save (backoff ev f)],
        b)"
  by (simp add: monitor_error_def backoff_def Let_def)

lemma monitor_error_saves: "length (saves (events (monitor_error ev f b))) \<le> 1"
  by (cases "100 \<le> error_count f")
     (simp_all add: monitor_error_deactivate deactivate_events monitor_error_backoff)

lemma monitor_error_raises:
  "(\<exists>x. fst (monitor_error ev f b) = Inl x) = uncaught ev (events (monitor_error ev f b))"
proof (cases "100 \<le> error_count f")
  case True
  have "(\<exists>x. fst (monitor_error ev f b) = Inl x)
          = (\<exists>x. fst (deactivate_feed_and_notify_all ev f b) = Inl x)"
    using True by (simp add: monitor_error_deactivate split: sum.splits)
  then show ?thesis using True by (simp add: deactivate_raises monitor_error_deactivate)
next
  case False
  then show ?thesis by (simp add: monitor_error_backoff)
qed

lemma monitor_entries_none:
  "new_entries ev f entries = [] \<Longrightarrow>
   monitor_entries ev d entries f b = (Inr NOT_UPDATED, [Log Debug], b)"
  by (simp add: monitor_entries_def scan_entries_eq new_entries_def Let_def)

lemma monitor_entries_some:
  assumes "new_entries ev f entries \<noteq> []"
  shows "events (monitor_entries ev d entries f b)
     = [Log Debug, Save (updated_feed ev d entries f)]
       @ (if url d \<noteq> link f then [Migrate (updated_feed ev d entries f) (url d)] else [])
       @ events (gather (notify_all ev (notified_feed ev d (updated_feed ev d entries f)))
                   (new_entries ev f entries) b)"
    and "fst (monitor_entries ev d entries f b)
     = (case fst (gather (notify_all ev (notified_feed ev d (updated_feed ev d entries f)))
                   (new_entries ev f entries) b) of
          Inl x \<Rightarrow> Inl x | Inr vs \<Rightarrow> Inr UPDATED)"
  using assms
  by (simp_all add: monitor_entries_def scan_entries_eq new_entries_def new_hashes_def
      updated_feed_def notified_feed_def Let_def)

lemma monitor_skipped: "skip_due ev f \<Longrightarrow> monitor ev f b = (Inr SKIPPED, [], b)"
  by (simp add: monitor_def)

lemma monitor_cached:
  "\<not> skip_due ev f \<Longrightarrow> status (fetched_for ev f) = 304 \<Longrightarrow>
   monitor ev f b = (Inr CACHED, prologue ev f @ [Log Debug], b)"
  by (simp add: monitor_def Let_def fetched_for_def prologue_def recovers_def cleared_def)

lemma monitor_failed_eq:
  assumes "\<not> skip_due ev f" "status (fetched_for ev f) \<noteq> 304" "rss_d (fetched_for ev f) = None"
  shows "monitor ev f b
     = (case monitor_error ev f b of
          (r, evs, b1) \<Rightarrow> (r, Fetch (link f) (request_headers ev f) # evs, b1))"
  using assms unfolding monitor_def fetched_for_def Let_def
  by simp

lemma monitor_failed:
  assumes "\<not> skip_due ev f" "status (fetched_for ev f) \<noteq> 304" "rss_d (fetched_for ev f) = None"
  shows "events (monitor ev f b) = Fetch (link f) (request_headers ev f) # events (monitor_error ev f b)"
    and "fst (monitor ev f b) = fst (monitor_error ev f b)"
  by (simp_all add: monitor_failed_eq[OF assms])

lemma monitor_empty:
  assumes "\<not> skip_due ev f" "status (fetched_for ev f) \<noteq> 304" "rss_d (fetched_for ev f) = Some []"
  shows "monitor ev f b
     = (Inr EMPTY,
        prologue ev f
          @ (if url (fetched_for ev f) \<noteq> link f then [Migrate (recovered ev f) (url (fetched_for ev f))] else [])
          @ [Log Debug], b)"
proof (cases "recovers ev f")
  case True
  then have r: "0 < error_count f \<or> next_check_time f \<noteq> None"
    by (simp add: recovers_def)
  show ?thesis
    using assms True r
    by (simp add: monitor_def Let_def prologue_def cleared_def recovered_def
        fetched_for_def[symmetric])
next
  case False
  then have r: "\<not> (0 < error_count f \<or> next_check_time f \<noteq> None)"
    using assms by (simp add: recovers_def)
  show ?thesis
    using assms False r
    by (simp add: monitor_def Let_def prologue_def cleared_def recovered_def
        fetched_for_def[symmetric])
qed

lemma monitor_nonempty_eq:
  assumes "\<not> skip_due ev f" "status (fetched_for ev f) \<noteq> 304"
    "rss_d (fetched_for ev f) = Some entries" "entries \<noteq> []"
  shows "monitor ev f b
     = (case monitor_entries ev (fetched_for ev f) entries (recovered ev f) b of
          (r, evs, b1) \<Rightarrow> (r, prologue ev f @ evs, b1))"
proof (cases "recovers ev f")
  case True
  then have r: "0 < error_count f \<or> next_check_time f \<noteq> None"
    by (simp add: recovers_def)
  show ?thesis
    using assms True r
    by (simp add: monitor_def Let_def prologue_def cleared_def recovered_def
        fetched_for_def[symmetric])
next
  case False
  then have r: "\<not> (0 < error_count f \<or> next_check_time f \<noteq> None)"
    using assms by (simp add: recovers_def)
  show ?thesis
    using assms False r
    by (simp add: monitor_def Let_def prologue_def cleared_def recovered_def
        fetched_for_def[symmetric])
qed

lemma monitor_nonempty:
  assumes "\<not> skip_due ev f" "status (fetched_for ev f) \<noteq> 304"
    "rss_d (fetched_for ev f) = Some entries" "entries \<noteq> []"
  shows "events (monitor ev f b)
     = prologue ev f @ events (monitor_entries ev (fetched_for ev f) entries (recovered ev f) b)"
    and "fst (monitor ev f b) = fst (monitor_entries ev (fetched_for ev f) entries (recovered ev f) b)"
  by (simp_all add: monitor_nonempty_eq[OF assms])

lemma monitor_entries_raises:
  "(\<exists>x. fst (monitor_entries ev d entries f b) = Inl x)
     = uncaught ev (events (monitor_entries ev d entries f b))"
proof (cases "new_entries ev f entries = []")
  case True
  then show ?thesis by (simp add: monitor_entries_none)
next
  case False
  have "(\<exists>x. fst (monitor_entries ev d entries f b) = Inl x)
     = (\<exists>x. fst (gather (notify_all ev (notified_feed ev d (updated_feed ev d entries f)))
                   (new_entries ev f entries) b) = Inl x)"
    by (simp add: monitor_entries_some(2)[OF False] split: sum.splits)
  then show ?thesis
    by (simp add: monitor_entries_some(1)[OF False] gather_notify_raises)
qed

lemma monitor_entries_saves:
  "saves (events (monitor_entries ev d entries f b))
     = (if new_entries ev f entries = [] then [] else [updated_feed ev d entries f])"
  by (simp add: monitor_entries_none monitor_entries_some gather_notify_events)

lemma uncaught_prologue [simp]: "uncaught ev (prologue ev f) = False"
  by (simp add: prologue_def)

lemma monitor_raises_iff:
  "(\<exists>x. fst (monitor ev f b) = Inl x) = uncaught ev (events (monitor ev f b))"
proof (cases "skip_due ev f")
  case True
  then show ?thesis by (simp add: monitor_skipped)
next
  case ns: False
  show ?thesis
  proof (cases "status (fetched_for ev f) = 304")
    case True
    then show ?thesis using ns by (simp add: monitor_cached)
  next
    case n304: False
    show ?thesis
    proof (cases "rss_d (fetched_for ev f)")
      case None
      then show ?thesis
        using ns n304 by (simp add: monitor_failed monitor_error_raises)
    next
      case (Some entries)
      then show ?thesis
        using ns n304
        by (cases "entries = []")
           (simp_all add: monitor_empty monitor_nonempty monitor_entries_raises)
    qed
  qed
qed

lemma saves_prologue: "saves (prologue ev f) = (if recovers ev f then [cleared f] else [])"
  by (simp add: prologue_def)

lemma stored_recovered [simp]: "stored_hashes (recovered ev f) = stored_hashes f"
  by (simp add: recovered_def cleared_def stored_hashes_def)

lemma new_entries_recovered [simp]: "new_entries ev (recovered ev f) entries = new_entries ev f entries"
  by (simp add: new_entries_def)

lemma new_hashes_recovered [simp]: "new_hashes ev (recovered ev f) entries = new_hashes ev f entries"
  by (simp add: new_hashes_def)

lemma entry_hashes_updated:
  "entry_hashes (updated_feed ev d entries f)
     = Some (merge_hashes (new_hashes ev f entries) (stored_hashes f) (length entries))"
  by (simp add: updated_feed_def)

lemma monitor_updated:
  assumes "\<not> skip_due ev f" "status (fetched_for ev f) \<noteq> 304"
    "rss_d (fetched_for ev f) = Some entries" "new_entries ev f entries \<noteq> []"
  shows "saves (events (monitor ev f b))
           = saves (prologue ev f) @ [updated_feed ev (fetched_for ev f) entries (recovered ev f)]"
    and "map post_entry (rendered (events (monitor ev f b))) = new_entries ev f entries"
    and "fst (monitor ev f b) = Inr UPDATED \<or> uncaught ev (events (monitor ev f b))"
proof -
  have ne: "entries \<noteq> []" using assms(4) by (auto simp: new_entries_def)
  note m = monitor_nonempty[OF assms(1-3) ne]
  have n: "new_entries ev (recovered ev f) entries \<noteq> []" using assms(4) by simp
  show "saves (events (monitor ev f b))
           = saves (prologue ev f) @ [updated_feed ev (fetched_for ev f) entries (recovered ev f)]"
    using assms(4) by (simp add: m monitor_entries_saves)
  have "rendered (prologue ev f) = []" by (simp add: prologue_def)
  then show "map post_entry (rendered (events (monitor ev f b))) = new_entries ev f entries"
    by (simp add: m monitor_entries_some(1)[OF n] gather_notify_events post_entry_def comp_def)
  show "fst (monitor ev f b) = Inr UPDATED \<or> uncaught ev (events (monitor ev f b))"
  proof (cases "uncaught ev (events (monitor ev f b))")
    case True
    then show ?thesis by simp
  next
    case False
    then have "\<not> (\<exists>x. fst (monitor ev f b) = Inl x)" by (simp add: monitor_raises_iff)
    then have "\<not> (\<exists>x. fst (gather (notify_all ev (notified_feed ev (fetched_for ev f)
                            (updated_feed ev (fetched_for ev f) entries (recovered ev f))))
                     (new_entries ev (recovered ev f) entries) b) = Inl x)"
      by (simp add: m monitor_entries_some(2)[OF n] split: sum.splits)
    then show ?thesis
      by (simp add: m monitor_entries_some(2)[OF n] split: sum.splits)
  qed
qed

lemma merge_hashes_take:
  "length uh \<le> n \<Longrightarrow>
   merge_hashes uh old n = uh @ take (max (2 * n) 100 - length uh) old"
proof -
  assume a: "length uh \<le> n"
  have "0 \<le> max (int n * 2) 100 - int (length uh)" using a by simp
  moreover have "nat (max (int n * 2) 100 - int (length uh)) = max (2 * n) 100 - length uh"
    by (simp add: max_def nat_diff_distrib' nat_mult_distrib mult.commute)
  ultimately show ?thesis by (simp add: merge_hashes_def slice_to_def Let_def)
qed

lemma new_hashes_length: "length (new_hashes ev f entries) \<le> length entries"
  by (simp add: new_hashes_def new_entries_def)

lemma count_new_hashes:
  "h \<notin> set old \<Longrightarrow>
   count_list (map (\<lambda>e. the (fingerprint gh e)) (filter (is_new gh old) es)) h
     = length (filter (\<lambda>e. fingerprint gh e = Some h) es)"
  by (induction es) (auto simp: is_new_def split: option.splits)

lemma two_hits:
  assumes "i < j" "j < length xs" "Q (xs ! i)" "Q (xs ! j)"
  shows "2 \<le> length (filter Q xs)"
proof -
  have i: "i < length xs" using assms by simp
  have xs: "xs = take i xs @ xs ! i # drop (Suc i) xs"
    using i by (simp add: id_take_nth_drop)
  have "xs ! j = drop (Suc i) xs ! (j - Suc i)" using assms by simp
  moreover have "j - Suc i < length (drop (Suc i) xs)" using assms by simp
  ultimately have "xs ! j \<in> set (drop (Suc i) xs)" by (metis nth_mem)
  then have "filter Q (drop (Suc i) xs) \<noteq> []"
    using assms(4) by (auto simp: filter_empty_conv)
  then have "1 \<le> length (filter Q (drop (Suc i) xs))"
    by (cases "filter Q (drop (Suc i) xs)") simp_all
  moreover have "length (filter Q xs)
      = length (filter Q (take i xs)) + length (filter Q (xs ! i # drop (Suc i) xs))"
    by (subst xs) simp
  ultimately show ?thesis using assms(3) by simp
qed

lemma test_env_sel [simp]:
  "now (test_env d subs x) = 1000"
  "default_interval (test_env d subs x) = 10"
  "get_hash (test_env d subs x) = (\<lambda>s. s)"
  "feed_get (test_env d subs x) l h = d"
  "active_subs (test_env d subs x) f = subs"
  "migrate_to_new_url (test_env d subs x) f l = None"
  "deliver (test_env d subs x) n c = x"
  "get_tasks (test_env d subs x) = [1]"
  "feeds_by_id (test_env d subs x) ids = [feed0]"
  "get_http_caching_headers (test_env d subs x) h = (None, None)"
  by (simp_all add: test_env_def)

lemma fetched_for_test [simp]: "fetched_for (test_env d subs x) f = d"
  by (simp add: fetched_for_def)

lemma skip_due_unset [simp]: "next_check_time f = None \<Longrightarrow> \<not> skip_due ev f"
  by (simp add: skip_due_def)

lemma fingerprint_test [simp]:
  "fingerprint (\<lambda>s. s) entry_a = Some ''a''"
  "fingerprint (\<lambda>s. s) entry_a2 = Some ''a''"
  "fingerprint (\<lambda>s. s) entry_b = Some ''b''"
  "fingerprint (\<lambda>s. s) entry_c = Some ''c''"
  by (simp_all add: fingerprint_def entry_a_def entry_a2_def entry_b_def entry_c_def
      py_or_def truthy_def entry_get_def)

lemma prologue_recovers:
  "recovers ev f \<Longrightarrow>
   prologue ev f = [Fetch (link f) (request_headers ev f), Save (cleared f)]"
  by (simp add: prologue_def)

lemma updated_feed_error_state:
  "error_count (updated_feed ev d entries f) = error_count f"
  "next_check_time (updated_feed ev d entries f) = next_check_time f"
  by (simp_all add: updated_feed_def)

lemma cleared_error_state [simp]:
  "error_count (cleared f) = 0" "next_check_time (cleared f) = None"
  by (simp_all add: cleared_def)

lemma monitor_error_sends:
  "sends (events (monitor_error ev f b))
     = (if 100 \<le> error_count f
        then map (\<lambda>s. (user_id s, Text (deactivation_notice ev f s))) (active_subs ev f)
        else [])"
  by (simp add: monitor_error_deactivate deactivate_events monitor_error_backoff)

lemma monitor_entries_sends:
  "sends (events (monitor_entries ev d entries f b))
     = (if new_entries ev f entries = [] then []
        else concat (map (\<lambda>e. map (\<lambda>s. (user_id s,
                 Rich (Post e (title (notified_feed ev d (updated_feed ev d entries f)))
                              (link (notified_feed ev d (updated_feed ev d entries f))))))
               (active_subs ev (notified_feed ev d (updated_feed ev d entries f))))
             (new_entries ev f entries)))"
  by (simp add: monitor_entries_none monitor_entries_some gather_notify_events)

lemma sends_prologue [simp]: "sends (prologue ev f) = []"
  by (simp add: prologue_def)

lemma monitor_sends_indep:
  "sends (events (monitor ev f b)) = sends (events (monitor ev f b'))"
proof (cases "skip_due ev f")
  case True
  then show ?thesis by (simp add: monitor_skipped)
next
  case ns: False
  show ?thesis
  proof (cases "status (fetched_for ev f) = 304")
    case True
    then show ?thesis using ns by (simp add: monitor_cached)
  next
    case n304: False
    show ?thesis
    proof (cases "rss_d (fetched_for ev f)")
      case None
      then show ?thesis
        using ns n304 by (simp add: monitor_failed monitor_error_sends)
    next
      case (Some entries)
      then show ?thesis
        using ns n304
        by (cases "entries = []")
           (simp_all add: monitor_empty monitor_nonempty monitor_entries_sends)
    qed
  qed
qed

lemma uncaught_monitor_indep:
  "uncaught ev (events (monitor ev f b)) = uncaught ev (events (monitor ev f b'))"
  by (simp add: uncaught_def monitor_sends_indep[of ev f b b'])

lemma run_monitor_task_fst:
  assumes "get_tasks ev \<noteq> []"
  shows "fst (run_monitor_task ev m b)
     = (case fst (gather (monitor ev) (feeds_by_id ev (get_tasks ev)) b) of
          Inl x \<Rightarrow> Inl x | Inr result \<Rightarrow> Inr ())"
proof -
  obtain r evs b1 where g: "gather (monitor ev) (feeds_by_id ev (get_tasks ev)) b = (r, evs, b1)"
    by (cases "gather (monitor ev) (feeds_by_id ev (get_tasks ev)) b") auto
  show ?thesis
  proof (cases r)
    case (Inl x)
    then show ?thesis using assms g by (simp add: run_monitor_task_def)
  next
    case (Inr result)
    obtain m1 evs1 where l: "log_counts m (tally result zero_counts) = (m1, evs1)"
      by (cases "log_counts m (tally result zero_counts)") auto
    show ?thesis using assms g Inr l by (simp add: run_monitor_task_def)
  qed
qed

lemma run_monitor_task_raises:
  "(\<exists>x. fst (run_monitor_task ev m b) = Inl x)
     = (get_tasks ev \<noteq> []
        \<and> (\<exists>f \<in> set (feeds_by_id ev (get_tasks ev)). uncaught ev (events (monitor ev f b))))"
proof (cases "get_tasks ev = []")
  case True
  then show ?thesis by (simp add: run_monitor_task_def)
next
  case False
  have one: "(\<exists>e. fst (monitor ev x b') = Inl e) = uncaught ev (events (monitor ev x b))"
    for x b'
    by (subst monitor_raises_iff) (rule uncaught_monitor_indep)
  have g: "(\<exists>x. fst (gather (monitor ev) (feeds_by_id ev (get_tasks ev)) b) = Inl x)
      = (\<exists>f \<in> set (feeds_by_id ev (get_tasks ev)). uncaught ev (events (monitor ev f b)))"
    by (rule gather_fails_iff) (rule one)
  have "(\<exists>x. fst (run_monitor_task ev m b) = Inl x)
      = (\<exists>x. fst (gather (monitor ev) (feeds_by_id ev (get_tasks ev)) b) = Inl x)"
    by (simp add: run_monitor_task_fst[OF False] split: sum.splits)
  then show ?thesis using False g by simp
qed

lemma monitor_saves_bound:
  "length (saves (events (monitor ev f b))) \<le> 2"
  "\<not> recovers ev f \<Longrightarrow> length (saves (events (monitor ev f b))) \<le> 1"
  "fst (monitor ev f b) = Inr out \<Longrightarrow> out \<noteq> UPDATED \<Longrightarrow>
     length (saves (events (monitor ev f b))) \<le> 1"
proof -
  have p: "length (saves (prologue ev f)) \<le> 1" by (simp add: saves_prologue)
  have all: "length (saves (events (monitor ev f b))) \<le> 2
      \<and> (\<not> recovers ev f \<longrightarrow> length (saves (events (monitor ev f b))) \<le> 1)
      \<and> (fst (monitor ev f b) = Inr out \<and> out \<noteq> UPDATED
           \<longrightarrow> length (saves (events (monitor ev f b))) \<le> 1)"
  proof (cases "skip_due ev f")
    case True
    then show ?thesis by (simp add: monitor_skipped)
  next
    case ns: False
    show ?thesis
    proof (cases "status (fetched_for ev f) = 304")
      case True
      then show ?thesis using ns p by (simp add: monitor_cached)
    next
      case n304: False
      show ?thesis
      proof (cases "rss_d (fetched_for ev f)")
        case None
        have "length (saves (events (monitor_error ev f b))) \<le> 1"
          by (rule monitor_error_saves)
        then show ?thesis
          using ns n304 None by (simp add: monitor_failed)
      next
        case (Some entries)
        show ?thesis
        proof (cases "new_entries ev f entries = []")
          case True
          then show ?thesis
            using ns n304 Some p
            by (cases "entries = []")
               (simp_all add: monitor_empty monitor_nonempty monitor_entries_saves)
        next
          case False
          note m = monitor_updated[OF ns n304 Some False, of b]
          have "fst (monitor ev f b) = Inr UPDATED \<or> (\<exists>x. fst (monitor ev f b) = Inl x)"
            using m(3) by (simp add: monitor_raises_iff)
          then have "\<not> (fst (monitor ev f b) = Inr out \<and> out \<noteq> UPDATED)" by auto
          then show ?thesis using p by (simp add: m(1) saves_prologue)
        qed
      qed
    qed
  qed
  show "length (saves (events (monitor ev f b))) \<le> 2" using all by simp
  show "\<not> recovers ev f \<Longrightarrow> length (saves (events (monitor ev f b))) \<le> 1" using all by simp
  show "fst (monitor ev f b) = Inr out \<Longrightarrow> out \<noteq> UPDATED \<Longrightarrow>
     length (saves (events (monitor ev f b))) \<le> 1" using all by simp
qed

lemma uncaught_test_env:
  "uncaught (test_env d subs x) evs = (sends evs \<noteq> [] \<and> x = Some OtherError)"
  by (cases "sends evs") (auto simp: uncaught_def)

lemma new_entries_a [simp]:
  "new_entries (test_env d subs x) feed0 [entry_a] = [entry_a]"
  "new_entries (test_env d subs x) (feed0\<lparr>error_count := 3\<rparr>) [entry_a] = [entry_a]"
  by (simp_all add: new_entries_def is_new_def stored_hashes_def feed0_def)

lemma send_lock_held:
  assumes "deliver ev (user_id s) p = Some e"
    and "e = UserIsBlockedError \<or> e = UserIdInvalidError \<or> e = ChatWriteForbiddenError"
    and "b (user_id s) = Some True"
  shows "send ev s p b = (Inr (), [Send_message (user_id s) p], b)"
  using assms by (simp add: send_def Let_def)

lemma send_lock_free:
  assumes "deliver ev (user_id s) p = Some e"
    and "e = UserIsBlockedError \<or> e = UserIdInvalidError \<or> e = ChatWriteForbiddenError"
    and "b (user_id s) \<noteq> Some True"
  shows "fst (snd (send ev s p b))
           = [Send_message (user_id s) p, Log Error, Unsub_all (user_id s)]"
    and "snd (snd (send ev s p b)) (user_id s) = Some False"
  using assms by (auto simp: send_def Let_def split: option.splits)

lemma backoff_error_count: "error_count (backoff ev f) = error_count f + 1"
  by (simp add: backoff_def Let_def)

section \<open>The claims\<close>

text \<open>
  Claim C1 (deactivation threshold) says that a feed whose failing fetch brings its
  \<open>error_count\<close> to 100 is deactivated and its subscribers notified. Line 136 tests
  the stored count before line 140 increments it: at a stored count of 99 the failure is
  counted, the feed is saved with \<open>error_count = 100\<close> and a next check 25 minutes
  after now, nothing is deactivated and nobody is notified.
\<close>

theorem deactivation_threshold_counterexample:
  "deactivations (events (monitor (test_env fetch_failed [sub1] None)
      (feed0\<lparr>error_count := 99\<rparr>) no_locks)) = []
   \<and> sends (events (monitor (test_env fetch_failed [sub1] None)
      (feed0\<lparr>error_count := 99\<rparr>) no_locks)) = []
   \<and> saves (events (monitor (test_env fetch_failed [sub1] None)
      (feed0\<lparr>error_count := 99\<rparr>) no_locks))
       = [feed0\<lparr>error_count := 100, next_check_time := Some (1000 + minutes 25)\<rparr>]
   \<and> fst (monitor (test_env fetch_failed [sub1] None)
      (feed0\<lparr>error_count := 99\<rparr>) no_locks) = Inr FAILED"
proof -
  let ?ev = "test_env fetch_failed [sub1] None"
  let ?f = "feed0\<lparr>error_count := 99\<rparr>"
  have h1: "\<not> skip_due ?ev ?f" by (simp add: feed0_def)
  have h2: "rss_d (fetched_for ?ev ?f) = None" by (simp add: fetch_failed_def)
  have h3: "status (fetched_for ?ev ?f) \<noteq> 304" by (simp add: fetch_failed_def)
  have n: "next_check_interval 5 100 = 25" by (simp add: next_check_interval_def)
  have b: "backoff ?ev ?f
      = feed0\<lparr>error_count := 100, next_check_time := Some (1000 + minutes 25)\<rparr>"
    by (simp add: backoff_def Let_def feed0_def n)
  show ?thesis
    by (simp add: monitor_failed[OF h1 h3 h2] monitor_error_backoff b)
qed

text \<open>
  Claim C1 as amended, for a poll that is not skipped and whose fetch fails (no parsed
  feed, status other than 304). When the stored \<open>error_count\<close> is already 100 or more,
  the feed is deactivated once and not saved, so it gets no backoff; every active
  subscription gets exactly one send, of its deactivation notice; with no active
  subscription nothing is sent; and the poll returns \<open>FAILED\<close>, provided no send raises
  an exception that \<open>__send\<close> does not catch. When the stored count is below 100, which
  includes the failure that brings it to 100, the feed is not deactivated and nobody is
  notified: it is saved once with the count incremented, and the poll returns \<open>FAILED\<close>.
\<close>

theorem deactivation_threshold:
  assumes "\<not> skip_due ev f"
    and "rss_d (fetched_for ev f) = None"
    and "status (fetched_for ev f) \<noteq> 304"
  shows "(100 \<le> error_count f \<longrightarrow>
           deactivations (events (monitor ev f b)) = [f]
         \<and> saves (events (monitor ev f b)) = []
         \<and> sends (events (monitor ev f b))
             = map (\<lambda>s. (user_id s, Text (deactivation_notice ev f s))) (active_subs ev f)
         \<and> (active_subs ev f = [] \<longrightarrow>
              events (monitor ev f b)
                = [Fetch (link f) (request_headers ev f), Log Error, Deactivate_feed f])
         \<and> (\<not> uncaught ev (events (monitor ev f b)) \<longrightarrow> fst (monitor ev f b) = Inr FAILED))
       \<and> (error_count f < 100 \<longrightarrow>
           deactivations (events (monitor ev f b)) = []
         \<and> sends (events (monitor ev f b)) = []
         \<and> (\<exists>g. saves (events (monitor ev f b)) = [g] \<and> error_count g = error_count f + 1)
         \<and> fst (monitor ev f b) = Inr FAILED)"
proof -
  note m = monitor_failed[OF assms(1) assms(3) assms(2), of b]
  have hi: "deactivations (events (monitor ev f b)) = [f]
         \<and> saves (events (monitor ev f b)) = []
         \<and> sends (events (monitor ev f b))
             = map (\<lambda>s. (user_id s, Text (deactivation_notice ev f s))) (active_subs ev f)
         \<and> (active_subs ev f = [] \<longrightarrow>
              events (monitor ev f b)
                = [Fetch (link f) (request_headers ev f), Log Error, Deactivate_feed f])
         \<and> (\<not> uncaught ev (events (monitor ev f b)) \<longrightarrow> fst (monitor ev f b) = Inr FAILED)"
    if t: "100 \<le> error_count f"
  proof -
    note d = monitor_error_deactivate[OF t, of ev b]
    have ev: "events (monitor ev f b)
        = Fetch (link f) (request_headers ev f) # Log Error
          # events (deactivate_feed_and_notify_all ev f b)"
      by (simp add: m(1) d(1))
    have none: "active_subs ev f = [] \<Longrightarrow>
        events (deactivate_feed_and_notify_all ev f b) = [Deactivate_feed f]"
      by (simp add: deactivate_feed_and_notify_all_def)
    have out: "\<not> uncaught ev (events (monitor ev f b)) \<Longrightarrow> fst (monitor ev f b) = Inr FAILED"
    proof -
      assume "\<not> uncaught ev (events (monitor ev f b))"
      then have "\<not> (\<exists>x. fst (deactivate_feed_and_notify_all ev f b) = Inl x)"
        by (simp add: ev deactivate_raises)
      then show ?thesis by (simp add: m(2) d(2) split: sum.splits)
    qed
    show ?thesis using none out by (simp add: ev deactivate_events)
  qed
  have lo: "deactivations (events (monitor ev f b)) = []
         \<and> sends (events (monitor ev f b)) = []
         \<and> (\<exists>g. saves (events (monitor ev f b)) = [g] \<and> error_count g = error_count f + 1)
         \<and> fst (monitor ev f b) = Inr FAILED"
    if t: "error_count f < 100"
  proof -
    have n: "\<not> 100 \<le> error_count f" using t by simp
    show ?thesis
      by (simp add: m monitor_error_backoff[OF n] backoff_error_count)
  qed
  show ?thesis using hi lo by blast
qed

text \<open>
  Claim C1 as amended, at a failing fetch with two subscribers: a feed with
  \<open>error_count = 100\<close>, and the same feed with \<open>error_count = 99\<close>.
\<close>

theorem deactivation_threshold_witness:
  "sends (events (monitor (test_env fetch_failed [sub1, sub2] None)
        (feed0\<lparr>error_count := 100\<rparr>) no_locks))
     = [(7, Text (deactivation_notice (test_env fetch_failed [sub1, sub2] None)
                    (feed0\<lparr>error_count := 100\<rparr>) sub1)),
        (8, Text (deactivation_notice (test_env fetch_failed [sub1, sub2] None)
                    (feed0\<lparr>error_count := 100\<rparr>) sub2))]
   \<and> fst (monitor (test_env fetch_failed [sub1, sub2] None)
        (feed0\<lparr>error_count := 100\<rparr>) no_locks) = Inr FAILED
   \<and> saves (events (monitor (test_env fetch_failed [sub1, sub2] None)
        (feed0\<lparr>error_count := 100\<rparr>) no_locks)) = []
   \<and> deactivations (events (monitor (test_env fetch_failed [sub1, sub2] None)
        (feed0\<lparr>error_count := 99\<rparr>) no_locks)) = []"
proof -
  let ?ev = "test_env fetch_failed [sub1, sub2] None"
  let ?f = "feed0\<lparr>error_count := 100\<rparr>"
  let ?g = "feed0\<lparr>error_count := 99\<rparr>"
  have h1: "\<not> skip_due ?ev ?f" by (simp add: feed0_def)
  have h2: "rss_d (fetched_for ?ev ?f) = None" by (simp add: fetch_failed_def)
  have h3: "status (fetched_for ?ev ?f) \<noteq> 304" by (simp add: fetch_failed_def)
  have h4: "100 \<le> error_count ?f" by simp
  have g1: "\<not> skip_due ?ev ?g" by (simp add: feed0_def)
  have g2: "rss_d (fetched_for ?ev ?g) = None" by (simp add: fetch_failed_def)
  have g3: "status (fetched_for ?ev ?g) \<noteq> 304" by (simp add: fetch_failed_def)
  have g4: "error_count ?g < 100" by simp
  have u: "\<not> uncaught ?ev evs" for evs by (simp add: uncaught_def)
  show ?thesis
    using deactivation_threshold [OF h1 h2 h3, of no_locks] h4 u
      deactivation_threshold [OF g1 g2 g3, of no_locks] g4
    by (simp add: sub1_def sub2_def)
qed

text \<open>
  Claim C2 (backoff boundary) says that a failure moving \<open>error_count\<close> from 9 to 10 with
  an interval of 5 minutes computes a delay of 5 and leaves the next check unset. Line
  145 computes \<open>min(5, 15) * min(10 // 10 + 1, 5) = 10\<close>, which exceeds 5, and the feed
  is saved with a next check 10 minutes after now.
\<close>

theorem backoff_boundary_counterexample:
  "next_check_interval 5 10 = 10
   \<and> next_check_time (last (saves (events
        (monitor (test_env fetch_failed [sub1] None) (feed0\<lparr>error_count := 9\<rparr>) no_locks))))
      = Some (1000 + minutes 10)"
proof -
  let ?ev = "test_env fetch_failed [sub1] None"
  let ?f = "feed0\<lparr>error_count := 9\<rparr>"
  have h1: "\<not> skip_due ?ev ?f" by (simp add: feed0_def)
  have h2: "rss_d (fetched_for ?ev ?f) = None" by (simp add: fetch_failed_def)
  have h3: "status (fetched_for ?ev ?f) \<noteq> 304" by (simp add: fetch_failed_def)
  have n: "next_check_interval 5 10 = 10" by (simp add: next_check_interval_def)
  have b: "backoff ?ev ?f = ?f\<lparr>error_count := 10, next_check_time := Some (1000 + minutes 10)\<rparr>"
    by (simp add: backoff_def Let_def feed0_def n)
  show ?thesis
    using n by (simp add: monitor_failed(1)[OF h1 h3 h2] monitor_error_backoff b)
qed

text \<open>
  Claim C2 as amended: with \<open>error_count\<close> moving from 9 to 10 and an interval of 5
  minutes, the delay is \<open>min(5, 15) * 2 = 10\<close> minutes, which exceeds the interval; the
  feed is saved once with \<open>error_count = 10\<close> and the next check set to now plus 10
  minutes, a warning is logged, and the outcome is \<open>FAILED\<close>.
\<close>

theorem backoff_boundary:
  assumes "\<not> skip_due ev f"
    and "rss_d (fetched_for ev f) = None"
    and "status (fetched_for ev f) \<noteq> 304"
    and "error_count f = 9"
    and "interval f = Some 5"
  shows "next_check_interval 5 (error_count f + 1) = 10
       \<and> fst (monitor ev f b) = Inr FAILED
       \<and> events (monitor ev f b)
           = [Fetch (link f) (request_headers ev f), Log Warning,
              Save (f\<lparr>error_count := 10, next_check_time := Some (now ev + minutes 10)\<rparr>)]"
proof -
  have n: "next_check_interval 5 10 = 10" by (simp add: next_check_interval_def)
  have b: "backoff ev f = f\<lparr>error_count := 10, next_check_time := Some (now ev + minutes 10)\<rparr>"
    using assms(4,5) by (simp add: backoff_def Let_def n)
  show ?thesis
    using n assms(4)
    by (simp add: monitor_failed[OF assms(1) assms(3) assms(2)] monitor_error_backoff b)
qed

text \<open>
  Claim C2 as amended, at a feed with \<open>error_count = 9\<close> and interval 5.
\<close>

theorem backoff_boundary_witness:
  "events (monitor (test_env fetch_failed [sub1] None) (feed0\<lparr>error_count := 9\<rparr>) no_locks)
     = [Fetch (link (feed0\<lparr>error_count := 9\<rparr>))
          (request_headers (test_env fetch_failed [sub1] None) (feed0\<lparr>error_count := 9\<rparr>)),
        Log Warning,
        Save (feed0\<lparr>error_count := 9\<rparr>
               \<lparr>error_count := 10,
                next_check_time := Some (now (test_env fetch_failed [sub1] None) + minutes 10)\<rparr>)]"
proof -
  let ?ev = "test_env fetch_failed [sub1] None"
  let ?f = "feed0\<lparr>error_count := 9\<rparr>"
  have h1: "\<not> skip_due ?ev ?f" by (simp add: feed0_def)
  have h2: "rss_d (fetched_for ?ev ?f) = None" by (simp add: fetch_failed_def)
  have h3: "status (fetched_for ?ev ?f) \<noteq> 304" by (simp add: fetch_failed_def)
  have h4: "error_count ?f = 9" by simp
  have h5: "interval ?f = Some 5" by (simp add: feed0_def)
  show ?thesis
    using backoff_boundary [OF h1 h2 h3 h4 h5, of no_locks] by blast
qed

text \<open>
  Claim C3 (containment of unclassified failures) says that no exception escapes a poll.
  \<open>__monitor\<close> has no \<open>try\<close>, and \<open>__send\<close> catches three exception classes only: with
  one new entry, one subscriber and a delivery that raises another exception, the poll
  raises it, and so does the gather of \<open>run_monitor_task\<close>.
\<close>

theorem unclassified_failure_counterexample:
  "fst (monitor (test_env (fetch_ok [entry_a]) [sub1] (Some OtherError)) feed0 no_locks)
     = Inl OtherError
   \<and> fst (run_monitor_task (test_env (fetch_ok [entry_a]) [sub1] (Some OtherError))
            zero_counts no_locks) = Inl OtherError"
proof -
  let ?ev = "test_env (fetch_ok [entry_a]) [sub1] (Some OtherError)"
  have h1: "\<not> skip_due ?ev feed0" by (simp add: feed0_def)
  have h2: "status (fetched_for ?ev feed0) \<noteq> 304" by (simp add: fetch_ok_def)
  have h3: "rss_d (fetched_for ?ev feed0) = Some [entry_a]" by (simp add: fetch_ok_def)
  have h4: "[entry_a] \<noteq> []" by simp
  have n: "new_entries ?ev (recovered ?ev feed0) [entry_a] \<noteq> []" by simp
  have m: "fst (monitor ?ev feed0 no_locks) = Inl OtherError"
    by (simp add: monitor_nonempty(2)[OF h1 h2 h3 h4] monitor_entries_some(2)[OF n]
        notify_all_def send_def Let_def)
  have t: "get_tasks ?ev \<noteq> []" by simp
  have "fst (run_monitor_task ?ev zero_counts no_locks) = Inl OtherError"
    using m
    by (cases "monitor ?ev feed0 no_locks") (simp add: run_monitor_task_fst[OF t])
  then show ?thesis using m by simp
qed

text \<open>
  Claim C3 as amended: \<open>__send\<close> returns normally unless the delivery raises an exception
  outside its three classes, which it lets through; a poll raises exactly when one of its
  sends does so, and returns an outcome otherwise (a failed fetch is never raised); the
  cycle raises exactly when the poll of one of its feeds does.
\<close>

theorem unclassified_failure_escapes:
  "((\<exists>x. fst (monitor ev f b) = Inl x) \<longleftrightarrow> uncaught ev (events (monitor ev f b)))
   \<and> (\<not> uncaught ev (events (monitor ev f b)) \<longrightarrow> (\<exists>out. fst (monitor ev f b) = Inr out))
   \<and> ((\<exists>x. fst (run_monitor_task ev m b) = Inl x) \<longleftrightarrow>
        get_tasks ev \<noteq> []
        \<and> (\<exists>g \<in> set (feeds_by_id ev (get_tasks ev)). uncaught ev (events (monitor ev g b))))
   \<and> (deliver ev (user_id s) p = Some OtherError \<longrightarrow> fst (send ev s p b) = Inl OtherError)
   \<and> (deliver ev (user_id s) p \<noteq> Some OtherError \<longrightarrow> fst (send ev s p b) = Inr ())"
proof -
  have a: "(\<exists>x. fst (monitor ev f b) = Inl x) \<longleftrightarrow> uncaught ev (events (monitor ev f b))"
    by (rule monitor_raises_iff)
  have b: "\<not> uncaught ev (events (monitor ev f b)) \<longrightarrow> (\<exists>out. fst (monitor ev f b) = Inr out)"
    using a by (cases "fst (monitor ev f b)") auto
  have c: "(\<exists>x. fst (run_monitor_task ev m b) = Inl x) \<longleftrightarrow>
        get_tasks ev \<noteq> []
        \<and> (\<exists>g \<in> set (feeds_by_id ev (get_tasks ev)). uncaught ev (events (monitor ev g b)))"
    by (rule run_monitor_task_raises)
  have d: "deliver ev (user_id s) p = Some OtherError \<longrightarrow> fst (send ev s p b) = Inl OtherError"
    by (simp add: send_result)
  have e: "deliver ev (user_id s) p \<noteq> Some OtherError \<longrightarrow> fst (send ev s p b) = Inr ()"
    by (simp add: send_result split: option.splits)
  show ?thesis using a b c d e by blast
qed

text \<open>
  Claim C3 as amended, at a poll whose delivery raises an uncaught exception, and at a
  send whose delivery raises \<open>UserIsBlockedError\<close>.
\<close>

theorem unclassified_failure_escapes_witness:
  "uncaught (test_env (fetch_ok [entry_a]) [sub1] (Some OtherError))
     (events (monitor (test_env (fetch_ok [entry_a]) [sub1] (Some OtherError)) feed0 no_locks))
   \<and> fst (monitor (test_env (fetch_ok [entry_a]) [sub1] (Some OtherError)) feed0 no_locks)
       \<noteq> Inr UPDATED
   \<and> fst (send (test_env (fetch_ok [entry_a]) [sub1] (Some UserIsBlockedError)) sub1
            (Text ''x'') no_locks) = Inr ()"
proof -
  let ?ev = "test_env (fetch_ok [entry_a]) [sub1] (Some OtherError)"
  let ?ev2 = "test_env (fetch_ok [entry_a]) [sub1] (Some UserIsBlockedError)"
  have h1: "\<not> skip_due ?ev feed0" by (simp add: feed0_def)
  have h2: "status (fetched_for ?ev feed0) \<noteq> 304" by (simp add: fetch_ok_def)
  have h3: "rss_d (fetched_for ?ev feed0) = Some [entry_a]" by (simp add: fetch_ok_def)
  have h4: "[entry_a] \<noteq> []" by simp
  have u: "uncaught ?ev (events (monitor ?ev feed0 no_locks))"
    by (simp add: uncaught_test_env monitor_nonempty(1)[OF h1 h2 h3 h4] monitor_entries_sends)
  have d: "deliver ?ev2 (user_id sub1) (Text ''x'') \<noteq> Some OtherError" by simp
  show ?thesis
    using u d unclassified_failure_escapes [of ?ev feed0 no_locks zero_counts sub1 "Text ''x''"]
      unclassified_failure_escapes [of ?ev2 feed0 no_locks zero_counts sub1 "Text ''x''"]
    by auto
qed

text \<open>
  Claim C4 (single write) says that a poll saves the feed at most once. A feed with
  \<open>error_count = 3\<close> whose fetch brings a new entry is saved twice: by the recovery
  (line 129) and by the update (line 182).
\<close>

theorem single_write_counterexample:
  "length (saves (events
     (monitor (test_env (fetch_ok [entry_a]) [sub1] None) (feed0\<lparr>error_count := 3\<rparr>) no_locks)))
   = 2"
proof -
  let ?ev = "test_env (fetch_ok [entry_a]) [sub1] None"
  let ?f = "feed0\<lparr>error_count := 3\<rparr>"
  have h1: "\<not> skip_due ?ev ?f" by (simp add: feed0_def)
  have h2: "status (fetched_for ?ev ?f) \<noteq> 304" by (simp add: fetch_ok_def)
  have h3: "rss_d (fetched_for ?ev ?f) = Some [entry_a]" by (simp add: fetch_ok_def)
  have n: "new_entries ?ev ?f [entry_a] \<noteq> []" by simp
  have r: "recovers ?ev ?f" by (simp add: recovers_def fetch_ok_def)
  show ?thesis
    using r by (simp add: monitor_updated(1)[OF h1 h2 h3 n] saves_prologue)
qed

text \<open>
  Claim C4 as amended: a poll saves the feed at most twice; at most once when the feed
  had no error state (no positive \<open>error_count\<close>, no next check), and at most once when
  its outcome is not \<open>UPDATED\<close>; it returns one outcome unless one of its sends raises an
  exception that \<open>__send\<close> does not catch.
\<close>

theorem at_most_two_writes:
  "length (saves (events (monitor ev f b))) \<le> 2
   \<and> (error_count f \<le> 0 \<and> next_check_time f = None \<longrightarrow>
        length (saves (events (monitor ev f b))) \<le> 1)
   \<and> (fst (monitor ev f b) = Inr out \<and> out \<noteq> UPDATED \<longrightarrow>
        length (saves (events (monitor ev f b))) \<le> 1)
   \<and> (\<not> uncaught ev (events (monitor ev f b)) \<longrightarrow> (\<exists>r. fst (monitor ev f b) = Inr r))"
proof -
  have a: "error_count f \<le> 0 \<and> next_check_time f = None \<longrightarrow> \<not> recovers ev f"
    by (auto simp: recovers_def)
  have b: "\<not> uncaught ev (events (monitor ev f b)) \<longrightarrow> (\<exists>r. fst (monitor ev f b) = Inr r)"
    using monitor_raises_iff[of ev f b] by (cases "fst (monitor ev f b)") auto
  show ?thesis
    using a b monitor_saves_bound[of ev f b] by blast
qed

text \<open>
  Claim C4 as amended, at a feed without error state whose fetch brings a new entry.
\<close>

theorem at_most_two_writes_witness:
  "length (saves (events
     (monitor (test_env (fetch_ok [entry_a]) [sub1] None) feed0 no_locks))) \<le> 1
   \<and> fst (monitor (test_env (fetch_ok [entry_a]) [sub1] None) feed0 no_locks) \<noteq> Inl OtherError"
proof -
  let ?ev = "test_env (fetch_ok [entry_a]) [sub1] None"
  have h: "error_count feed0 \<le> 0 \<and> next_check_time feed0 = None" by (simp add: feed0_def)
  have u: "\<not> uncaught ?ev (events (monitor ?ev feed0 no_locks))"
    by (simp add: uncaught_test_env)
  show ?thesis
    using h u at_most_two_writes [of ?ev feed0 no_locks SKIPPED] by auto
qed

text \<open>
  Claim C5 (fanout without subscribers) says that with no active subscription
  \<open>__notify_all\<close> signals \<open>update_interval\<close> and stops. The branch of line 195 has no
  \<open>return\<close>: the post is still built and its message generated (lines 197-198), and
  nothing is delivered.
\<close>

theorem notify_all_without_subscribers:
  "notify_all (test_env (fetch_ok [entry_a]) [] None) feed0 entry_a no_locks
     = (Inr (),
        [Update_interval feed0, Generate_message (Post entry_a (title feed0) (link feed0))],
        no_locks)"
  by (simp add: notify_all_def)

text \<open>
  Claim C7 (scenario of the diff and the merge). The stored hashes are \<open>[h1, h2]\<close> and
  the fetch returns three entries with hashes \<open>[h3, h1, h2]\<close>, \<open>h3\<close> being neither
  \<open>h1\<close> nor \<open>h2\<close>. Then the loop yields the hashes \<open>[h3]\<close> and the entry of \<open>h3\<close>,
  the saved list is \<open>[h3, h1, h2]\<close>, exactly one fanout is started, for that entry, and
  the outcome is \<open>UPDATED\<close>, provided no send raises an exception that \<open>__send\<close> does
  not catch.
\<close>

theorem dedup_scenario:
  assumes "\<not> skip_due ev f"
    and "status (fetched_for ev f) \<noteq> 304"
    and "rss_d (fetched_for ev f) = Some [e3, e1, e2]"
    and "entry_hashes f = Some [h1, h2]"
    and "fingerprint (get_hash ev) e3 = Some h3"
    and "fingerprint (get_hash ev) e1 = Some h1"
    and "fingerprint (get_hash ev) e2 = Some h2"
    and "h3 \<noteq> h1" and "h3 \<noteq> h2"
  shows "scan_entries (get_hash ev) (stored_hashes f) [e3, e1, e2] [] [] = ([h3], [e3])
       \<and> merge_hashes [h3] (stored_hashes f) (length [e3, e1, e2]) = [h3, h1, h2]
       \<and> entry_hashes (last (saves (events (monitor ev f b)))) = Some [h3, h1, h2]
       \<and> map post_entry (rendered (events (monitor ev f b))) = [e3]
       \<and> (\<not> uncaught ev (events (monitor ev f b)) \<longrightarrow> fst (monitor ev f b) = Inr UPDATED)"
proof -
  have s: "stored_hashes f = [h1, h2]" using assms(4) by (simp add: stored_hashes_def)
  have new: "new_entries ev f [e3, e1, e2] = [e3]"
    using assms(5-9) by (simp add: new_entries_def s is_new_def)
  have nh: "new_hashes ev f [e3, e1, e2] = [h3]"
    using assms(5) by (simp add: new_hashes_def new)
  have ne: "new_entries ev f [e3, e1, e2] \<noteq> []" by (simp add: new)
  note m = monitor_updated[OF assms(1-3) ne, of b]
  have sc: "scan_entries (get_hash ev) (stored_hashes f) [e3, e1, e2] [] [] = ([h3], [e3])"
    using new nh by (simp add: scan_entries_eq new_entries_def new_hashes_def)
  have mh: "merge_hashes [h3] (stored_hashes f) (length [e3, e1, e2]) = [h3, h1, h2]"
    by (simp add: merge_hashes_take s)
  have "entry_hashes (last (saves (events (monitor ev f b)))) = Some [h3, h1, h2]"
    using mh by (simp add: m(1) entry_hashes_updated nh)
  then show ?thesis using sc mh m(2,3) new by auto
qed

text \<open>
  Claim C7 with the hashes \<open>a\<close>, \<open>b\<close> stored and the entries of \<open>c\<close>, \<open>a\<close>, \<open>b\<close> fetched.
\<close>

theorem dedup_scenario_witness:
  "entry_hashes (last (saves (events
      (monitor (test_env (fetch_ok [entry_c, entry_a, entry_b]) [sub1] None)
         (feed0\<lparr>entry_hashes := Some [''a'', ''b'']\<rparr>) no_locks))))
     = Some [''c'', ''a'', ''b'']
   \<and> map post_entry (rendered (events
      (monitor (test_env (fetch_ok [entry_c, entry_a, entry_b]) [sub1] None)
         (feed0\<lparr>entry_hashes := Some [''a'', ''b'']\<rparr>) no_locks))) = [entry_c]
   \<and> fst (monitor (test_env (fetch_ok [entry_c, entry_a, entry_b]) [sub1] None)
         (feed0\<lparr>entry_hashes := Some [''a'', ''b'']\<rparr>) no_locks) = Inr UPDATED"
proof -
  let ?ev = "test_env (fetch_ok [entry_c, entry_a, entry_b]) [sub1] None"
  let ?f = "feed0\<lparr>entry_hashes := Some [''a'', ''b'']\<rparr>"
  have h1: "\<not> skip_due ?ev ?f" by (simp add: feed0_def)
  have h2: "status (fetched_for ?ev ?f) \<noteq> 304" by (simp add: fetch_ok_def)
  have h3: "rss_d (fetched_for ?ev ?f) = Some [entry_c, entry_a, entry_b]"
    by (simp add: fetch_ok_def)
  have h4: "entry_hashes ?f = Some [''a'', ''b'']" by simp
  have h5: "fingerprint (get_hash ?ev) entry_c = Some ''c''" by simp
  have h6: "fingerprint (get_hash ?ev) entry_a = Some ''a''" by simp
  have h7: "fingerprint (get_hash ?ev) entry_b = Some ''b''" by simp
  have h8: "''c'' \<noteq> ''a''" by simp
  have h9: "''c'' \<noteq> ''b''" by simp
  have u: "\<not> uncaught ?ev evs" for evs by (simp add: uncaught_def)
  show ?thesis
    using dedup_scenario [OF h1 h2 h3 h4 h5 h6 h7 h8 h9, of no_locks] u by simp
qed

text \<open>
  Claim C8 (bounded history). On the update path, for any stored list and any fetched
  entries, the saved list of hashes is the new hashes followed by the first stored ones,
  as many as fit, and its length is at most \<open>max (2 * number of entries) 100\<close>.
\<close>

theorem bounded_history:
  assumes "\<not> skip_due ev f"
    and "status (fetched_for ev f) \<noteq> 304"
    and "rss_d (fetched_for ev f) = Some entries"
    and "scan_entries (get_hash ev) (stored_hashes f) entries [] [] = (uh, ue)"
    and "uh \<noteq> []"
  shows "saves (events (monitor ev f b)) \<noteq> []
       \<and> entry_hashes (last (saves (events (monitor ev f b))))
           = Some (uh @ take (max (2 * length entries) 100 - length uh) (stored_hashes f))
       \<and> length (uh @ take (max (2 * length entries) 100 - length uh) (stored_hashes f))
           \<le> max (2 * length entries) 100"
proof -
  have uh: "uh = new_hashes ev f entries"
    using assms(4) by (auto simp: scan_entries_eq new_hashes_def new_entries_def)
  then have ne: "new_entries ev f entries \<noteq> []"
    using assms(5) by (auto simp: new_hashes_def)
  have len: "length uh \<le> length entries"
    by (simp add: uh new_hashes_length)
  have sv: "saves (events (monitor ev f b))
      = saves (prologue ev f) @ [updated_feed ev (fetched_for ev f) entries (recovered ev f)]"
    using assms(1-3) ne by (rule monitor_updated(1))
  have "entry_hashes (last (saves (events (monitor ev f b))))
      = Some (merge_hashes uh (stored_hashes f) (length entries))"
    by (simp add: sv entry_hashes_updated uh)
  moreover have "merge_hashes uh (stored_hashes f) (length entries)
      = uh @ take (max (2 * length entries) 100 - length uh) (stored_hashes f)"
    using len by (rule merge_hashes_take)
  moreover have "length (uh @ take (max (2 * length entries) 100 - length uh) (stored_hashes f))
      \<le> max (2 * length entries) 100"
    using len by auto
  ultimately show ?thesis by (simp add: sv)
qed

text \<open>
  Claim C8 at a feed with two stored hashes and a fetch of two entries, one of them new.
\<close>

theorem bounded_history_witness:
  "entry_hashes (last (saves (events
      (monitor (test_env (fetch_ok [entry_c, entry_a]) [sub1] None)
         (feed0\<lparr>entry_hashes := Some [''a'', ''b'']\<rparr>) no_locks))))
     = Some [''c'', ''a'', ''b'']"
proof -
  let ?ev = "test_env (fetch_ok [entry_c, entry_a]) [sub1] None"
  let ?f = "feed0\<lparr>entry_hashes := Some [''a'', ''b'']\<rparr>"
  have h1: "\<not> skip_due ?ev ?f" by (simp add: feed0_def)
  have h2: "status (fetched_for ?ev ?f) \<noteq> 304" by (simp add: fetch_ok_def)
  have h3: "rss_d (fetched_for ?ev ?f) = Some [entry_c, entry_a]" by (simp add: fetch_ok_def)
  have s: "stored_hashes ?f = [''a'', ''b'']" by (simp add: stored_hashes_def)
  have h4: "scan_entries (get_hash ?ev) (stored_hashes ?f) [entry_c, entry_a] [] []
              = ([''c''], [entry_c])"
    by (simp add: s scan_entries_eq is_new_def)
  have h5: "[''c''] \<noteq> []" by simp
  show ?thesis
    using bounded_history [OF h1 h2 h3 h4 h5, of no_locks] by (simp add: s)
qed

text \<open>
  Claim C9 (recovery). A poll is not skipped, its fetch is a cache hit or a success, and
  the feed had a positive \<open>error_count\<close> or a next check. Then the first effect after the
  fetch is the save of the feed with \<open>error_count = 0\<close> and no next check, every save of
  the poll has them so, and a cache hit returns \<open>CACHED\<close> after that single save.
\<close>

theorem recovery_clears_error_state:
  assumes "\<not> skip_due ev f"
    and "rss_d (fetched_for ev f) \<noteq> None \<or> status (fetched_for ev f) = 304"
    and "0 < error_count f \<or> next_check_time f \<noteq> None"
  shows "(\<exists>rest. events (monitor ev f b)
            = Fetch (link f) (request_headers ev f)
              # Save (f\<lparr>error_count := 0, next_check_time := None\<rparr>) # rest)
       \<and> (\<forall>g \<in> set (saves (events (monitor ev f b))).
            error_count g = 0 \<and> next_check_time g = None)
       \<and> (status (fetched_for ev f) = 304 \<longrightarrow>
            monitor ev f b
              = (Inr CACHED,
                 [Fetch (link f) (request_headers ev f),
                  Save (f\<lparr>error_count := 0, next_check_time := None\<rparr>), Log Debug], b))"
proof -
  have r: "recovers ev f" using assms(2,3) by (simp add: recovers_def)
  have p: "prologue ev f = [Fetch (link f) (request_headers ev f), Save (cleared f)]"
    using r by (rule prologue_recovers)
  have rec: "recovered ev f = cleared f" using r by (simp add: recovered_def)
  have c: "cleared f = f\<lparr>error_count := 0, next_check_time := None\<rparr>"
    by (simp add: cleared_def)
  show ?thesis
  proof (cases "status (fetched_for ev f) = 304")
    case True
    then have "monitor ev f b = (Inr CACHED, prologue ev f @ [Log Debug], b)"
      using assms(1) by (simp add: monitor_cached)
    then show ?thesis using True by (simp add: p c)
  next
    case n304: False
    then obtain entries where e: "rss_d (fetched_for ev f) = Some entries"
      using assms(2) by auto
    show ?thesis
    proof (cases "entries = []")
      case True
      then show ?thesis
        using n304 e assms(1) by (simp add: monitor_empty p c[symmetric])
    next
      case False
      have ev: "events (monitor ev f b)
          = prologue ev f @ events (monitor_entries ev (fetched_for ev f) entries (cleared f) b)"
        using monitor_nonempty(1)[OF assms(1) n304 e False] by (simp add: rec)
      have "\<forall>g \<in> set (saves (events (monitor ev f b))).
              error_count g = 0 \<and> next_check_time g = None"
        by (simp add: ev p monitor_entries_saves updated_feed_error_state)
      then show ?thesis using n304 by (simp add: ev p c[symmetric])
    qed
  qed
qed

text \<open>
  Claim C9 at a feed with \<open>error_count = 3\<close> whose fetch is not modified.
\<close>

theorem recovery_clears_error_state_witness:
  "monitor (test_env fetch_cached [sub1] None) (feed0\<lparr>error_count := 3\<rparr>) no_locks
     = (Inr CACHED,
        [Fetch (link (feed0\<lparr>error_count := 3\<rparr>))
           (request_headers (test_env fetch_cached [sub1] None) (feed0\<lparr>error_count := 3\<rparr>)),
         Save (feed0\<lparr>error_count := 3\<rparr>\<lparr>error_count := 0, next_check_time := None\<rparr>),
         Log Debug], no_locks)"
proof -
  let ?ev = "test_env fetch_cached [sub1] None"
  let ?f = "feed0\<lparr>error_count := 3\<rparr>"
  have h1: "\<not> skip_due ?ev ?f" by (simp add: feed0_def)
  have h2: "rss_d (fetched_for ?ev ?f) \<noteq> None \<or> status (fetched_for ?ev ?f) = 304"
    by (simp add: fetch_cached_def)
  have h3: "0 < error_count ?f \<or> next_check_time ?f \<noteq> None" by simp
  have s: "status (fetched_for ?ev ?f) = 304" by (simp add: fetch_cached_def)
  show ?thesis
    using recovery_clears_error_state [OF h1 h2 h3, of no_locks] s by blast
qed

text \<open>
  Claim C10 (duplicates within one fetch). Two entries at different positions of one
  fetch have the same hash, which is not stored. Then both are new, the kept entries are
  all the new ones in their order, the hash occurs in the list of updated hashes once
  for each entry that has it, so at least twice, and one fanout is started for each kept
  entry.
\<close>

theorem duplicate_fingerprints_both_new:
  assumes "\<not> skip_due ev f"
    and "status (fetched_for ev f) \<noteq> 304"
    and "rss_d (fetched_for ev f) = Some entries"
    and "i < j" and "j < length entries"
    and "fingerprint (get_hash ev) (entries ! i) = Some h"
    and "fingerprint (get_hash ev) (entries ! j) = Some h"
    and "h \<notin> set (stored_hashes f)"
  shows "is_new (get_hash ev) (stored_hashes f) (entries ! i)
       \<and> is_new (get_hash ev) (stored_hashes f) (entries ! j)
       \<and> snd (scan_entries (get_hash ev) (stored_hashes f) entries [] [])
           = filter (is_new (get_hash ev) (stored_hashes f)) entries
       \<and> count_list (fst (scan_entries (get_hash ev) (stored_hashes f) entries [] [])) h
           = length (filter (\<lambda>e. fingerprint (get_hash ev) e = Some h) entries)
       \<and> 2 \<le> count_list (fst (scan_entries (get_hash ev) (stored_hashes f) entries [] [])) h
       \<and> map post_entry (rendered (events (monitor ev f b)))
           = snd (scan_entries (get_hash ev) (stored_hashes f) entries [] [])"
proof -
  let ?gh = "get_hash ev" and ?old = "stored_hashes f"
  have ni: "is_new ?gh ?old (entries ! i)" and nj: "is_new ?gh ?old (entries ! j)"
    using assms(6-8) by (simp_all add: is_new_def)
  have cnt: "count_list (fst (scan_entries ?gh ?old entries [] [])) h
           = length (filter (\<lambda>e. fingerprint ?gh e = Some h) entries)"
    using assms(8) by (simp add: scan_entries_eq count_new_hashes)
  have two: "2 \<le> length (filter (\<lambda>e. fingerprint ?gh e = Some h) entries)"
    using assms(4-7) by (rule two_hits)
  have "entries ! i \<in> set entries" using assms(4,5) by simp
  then have "new_entries ev f entries \<noteq> []"
    using ni by (auto simp: new_entries_def filter_empty_conv)
  then have "map post_entry (rendered (events (monitor ev f b))) = new_entries ev f entries"
    using assms(1-3) by (simp add: monitor_updated)
  then show ?thesis
    using ni nj cnt two by (simp add: scan_entries_eq new_entries_def)
qed

text \<open>
  Claim C10 at a fetch of three entries, the first and the last with the same \<open>guid\<close>.
\<close>

theorem duplicate_fingerprints_both_new_witness:
  "count_list (fst (scan_entries (get_hash (test_env (fetch_ok [entry_a, entry_b, entry_a2]) [sub1] None))
       (stored_hashes feed0) [entry_a, entry_b, entry_a2] [] [])) ''a'' = 2
   \<and> map post_entry (rendered (events
        (monitor (test_env (fetch_ok [entry_a, entry_b, entry_a2]) [sub1] None) feed0 no_locks)))
      = [entry_a, entry_b, entry_a2]"
proof -
  let ?ev = "test_env (fetch_ok [entry_a, entry_b, entry_a2]) [sub1] None"
  have h1: "\<not> skip_due ?ev feed0" by (simp add: feed0_def)
  have h2: "status (fetched_for ?ev feed0) \<noteq> 304" by (simp add: fetch_ok_def)
  have h3: "rss_d (fetched_for ?ev feed0) = Some [entry_a, entry_b, entry_a2]"
    by (simp add: fetch_ok_def)
  have h4: "(0::nat) < 2" by simp
  have h5: "2 < length [entry_a, entry_b, entry_a2]" by simp
  have h6: "fingerprint (get_hash ?ev) ([entry_a, entry_b, entry_a2] ! 0) = Some ''a''" by simp
  have h7: "fingerprint (get_hash ?ev) ([entry_a, entry_b, entry_a2] ! 2) = Some ''a''" by simp
  have h8: "''a'' \<notin> set (stored_hashes feed0)" by (simp add: stored_hashes_def feed0_def)
  have s: "stored_hashes feed0 = []" by (simp add: stored_hashes_def feed0_def)
  show ?thesis
    using duplicate_fingerprints_both_new [OF h1 h2 h3 h4 h5 h6 h7 h8, of no_locks]
    by (simp add: s is_new_def)
qed


end
